theory Spec2Isabelle
  imports Main
begin

section \<open>The Boss: table engine (src/engine/index.ts, class GameEngine)\<close>

text \<open>
  The engine is a class with mutable fields; every public method is a synchronous state
  transition. It is embedded as a record of the fields and one HOL function per method,
  taking the state and returning the new one. Players live in a \<open>Map\<close> from id to a
  mutable object: the model keeps them as a list of records in insertion order, looked up
  and updated by id. Events handed to the broadcast callback are appended to the field
  \<open>emitted\<close>. Chip amounts are JavaScript numbers holding integers and are modelled as
  \<open>int\<close>; seat indices and counters are \<open>nat\<close>.

  Three display strings that no method ever reads (the status line \<open>message\<close>, the
  per-player \<open>lastAction\<close> label, and the sentence in a result's \<open>description\<close>) are
  not part of the model; the payloads of snapshot and private events are projections of
  the state and are represented by the event's kind and addressee only.
\<close>

subsection \<open>Cards (src/shared/types.ts)\<close>

datatype Suit = Hearts | Diamonds | Clubs | Spades

datatype Rank = RA | R2 | R3 | R4 | R5 | R6 | R7 | R8 | R9 | R10 | RJ | RQ | RK

record Card =
  cardIdent :: string
  rank :: Rank
  suit :: Suit

datatype ComboMode = Low | High

record ComboSelection =
  cardId :: string
  mode :: ComboMode

datatype Phase = Waiting | Rush | Charge | Stomp | Combo | Oxtail | Showdown | HandEnd

datatype BetKind = Fold | Check | Call | Raise

record BetActionMessage =
  action :: BetKind
  amount :: "int option"

datatype ResultKind = WinsByDefault | SplitPot | WinsPot

record HandResult =
  winners :: "(string \<times> string \<times> int) list"
  bossTotal :: int
  resultKind :: ResultKind

datatype EngineEvent =
    EvSnapshot
  | EvPrivate string
  | EvResult HandResult
  | EvError "string option" string

record EnginePlayer =
  pid :: string
  username :: string
  seatIndex :: "nat option"
  stack :: int
  entryHand :: nat
  hand :: "Card list"
  inHand :: bool
  hasFolded :: bool
  betThisRound :: int
  totalBet :: int
  comboSelection :: "ComboSelection list"
  comboRevealed :: "Card list option"
  isDealer :: bool
  isSmallBlind :: bool
  isBigBlind :: bool

definition STARTING_STACK :: int where "STARTING_STACK = 500"
definition SMALL_BLIND :: int where "SMALL_BLIND = 5"
definition BIG_BLIND :: int where "BIG_BLIND = 10"
definition RAISE_INCREMENT :: int where "RAISE_INCREMENT = 10"
definition SEAT_COUNT :: nat where "SEAT_COUNT = 6"

record GameEngine =
  players :: "EnginePlayer list"
  seats :: "string option list"
  handNumber :: nat
  deck :: "Card list"
  bossCards :: "Card list"
  bossRevealedCount :: nat
  bossVisible :: bool
  smallBlindSeat :: "nat option"
  phase :: Phase
  dealerSeat :: "nat option"
  currentBet :: int
  minimumRaise :: int
  pot :: int
  sidePot :: int
  actingSeat :: "nat option"
  actedThisRound :: "nat set"
  awaitingCombo :: "string set"
  comboQueue :: "nat list"
  comboIndex :: nat
  lastResult :: "HandResult option"
  emitted :: "EngineEvent list"

definition initialEngine :: GameEngine where
  "initialEngine = \<lparr> players = [], seats = replicate SEAT_COUNT None, handNumber = 0,
     deck = [], bossCards = [], bossRevealedCount = 0, bossVisible = False,
     smallBlindSeat = None, phase = Waiting, dealerSeat = None, currentBet = 0,
     minimumRaise = RAISE_INCREMENT, pot = 0, sidePot = 0, actingSeat = None,
     actedThisRound = {}, awaitingCombo = {}, comboQueue = [], comboIndex = 0,
     lastResult = None, emitted = [] \<rparr>"

subsection \<open>Card values, combo totals, suit matches\<close>

text \<open>\<open>getCardValue\<close>: the default branch is \<open>parseInt(rank, 10)\<close> on the ranks '2' .. '10'.\<close>

fun getCardValue :: "Rank \<Rightarrow> int" where
  "getCardValue RA = 1"
| "getCardValue RJ = 11"
| "getCardValue RQ = 12"
| "getCardValue RK = 13"
| "getCardValue R2 = 2"
| "getCardValue R3 = 3"
| "getCardValue R4 = 4"
| "getCardValue R5 = 5"
| "getCardValue R6 = 6"
| "getCardValue R7 = 7"
| "getCardValue R8 = 8"
| "getCardValue R9 = 9"
| "getCardValue R10 = 10"

definition getBossCardValue :: "Rank \<Rightarrow> int" where
  "getBossCardValue r = (if r = RA then 1 else getCardValue r)"

definition findCardInHand :: "EnginePlayer \<Rightarrow> string \<Rightarrow> Card option" where
  "findCardInHand player i = find (\<lambda>crd. cardIdent crd = i) (hand player)"

text \<open>\<open>computeComboTotal\<close>: the loop over the selections, with the running total.\<close>

fun comboTotalLoop :: "EnginePlayer \<Rightarrow> ComboSelection list \<Rightarrow> int \<Rightarrow> int" where
  "comboTotalLoop player [] tot = tot"
| "comboTotalLoop player (selection # rest) tot =
     (case findCardInHand player (cardId selection) of
        None \<Rightarrow> comboTotalLoop player rest tot
      | Some crd \<Rightarrow>
          if rank crd = RA
          then comboTotalLoop player rest (tot + (if mode selection = High then 11 else 1))
          else comboTotalLoop player rest (tot + getCardValue (rank crd)))"

definition computeComboTotal :: "EnginePlayer \<Rightarrow> ComboSelection list \<Rightarrow> int" where
  "computeComboTotal player selections = comboTotalLoop player selections 0"

definition revealedBoss :: "GameEngine \<Rightarrow> Card list" where
  "revealedBoss s = take (bossRevealedCount s) (bossCards s)"

definition computeBossTotal :: "GameEngine \<Rightarrow> int" where
  "computeBossTotal s = foldl (\<lambda>acc crd. acc + getBossCardValue (rank crd)) 0 (revealedBoss s)"

text \<open>\<open>countSuitMatches\<close>: \<open>bossCounts\<close> is a \<open>Map\<close> from suit to number, read with
  \<open>?? 0\<close>; the first loop fills it from the revealed boss cards, the second consumes it.\<close>

definition countOf :: "(Suit \<rightharpoonup> nat) \<Rightarrow> Suit \<Rightarrow> nat" where
  "countOf m k = (case m k of None \<Rightarrow> 0 | Some n \<Rightarrow> n)"

fun bossCountsLoop :: "Card list \<Rightarrow> (Suit \<rightharpoonup> nat) \<Rightarrow> (Suit \<rightharpoonup> nat)" where
  "bossCountsLoop [] m = m"
| "bossCountsLoop (crd # rest) m = bossCountsLoop rest (m(suit crd \<mapsto> countOf m (suit crd) + 1))"

fun matchLoop :: "Card list \<Rightarrow> (Suit \<rightharpoonup> nat) \<Rightarrow> nat \<Rightarrow> nat" where
  "matchLoop [] m matches = matches"
| "matchLoop (crd # rest) m matches =
     (let remaining = countOf m (suit crd)
      in if remaining > 0
         then matchLoop rest (m(suit crd \<mapsto> remaining - 1)) (matches + 1)
         else matchLoop rest m matches)"

definition countSuitMatches :: "GameEngine \<Rightarrow> Card list \<Rightarrow> nat" where
  "countSuitMatches s cards = matchLoop cards (bossCountsLoop (revealedBoss s) Map.empty) 0"

text \<open>\<open>sanitizeSelections\<close>: \<open>seen\<close> is the set of crd ids already pushed.\<close>

fun sanitizeLoop :: "EnginePlayer \<Rightarrow> ComboSelection list \<Rightarrow> string set \<Rightarrow> ComboSelection list" where
  "sanitizeLoop player [] seen = []"
| "sanitizeLoop player (selection # rest) seen =
     (if cardId selection \<in> seen then sanitizeLoop player rest seen
      else case findCardInHand player (cardId selection) of
             None \<Rightarrow> sanitizeLoop player rest seen
           | Some crd \<Rightarrow>
               \<lparr> cardId = cardIdent crd,
                 mode = (if rank crd = RA \<and> mode selection = High then High else Low) \<rparr>
               # sanitizeLoop player rest (insert (cardIdent crd) seen))"

definition sanitizeSelections :: "EnginePlayer \<Rightarrow> ComboSelection list \<Rightarrow> ComboSelection list" where
  "sanitizeSelections player selections = sanitizeLoop player selections {}"

subsection \<open>Players, seats and events\<close>

text \<open>
  A player object is identified by its id: \<open>getPlayer\<close> is \<open>players.get\<close>, and a write
  to a field of a player object is \<open>updatePlayer\<close> at that id. A seat index has the type
  \<open>1 | 2 | 3 | 4 | 5 | 6\<close>; \<open>seatSlot\<close> is the read \<open>seats[seatIndex - 1]\<close>, which
  is \<open>undefined\<close> outside the array. Player ids are socket ids, never the empty string,
  so a seat slot is falsy exactly when it is \<open>null\<close>.
\<close>

definition getPlayer :: "GameEngine \<Rightarrow> string \<Rightarrow> EnginePlayer option" where
  "getPlayer s i = find (\<lambda>p. pid p = i) (players s)"

definition updatePlayer :: "GameEngine \<Rightarrow> string \<Rightarrow> (EnginePlayer \<Rightarrow> EnginePlayer) \<Rightarrow> GameEngine" where
  "updatePlayer s i f = s\<lparr>players := map (\<lambda>p. if pid p = i then f p else p) (players s)\<rparr>"

definition forAllPlayers :: "GameEngine \<Rightarrow> (EnginePlayer \<Rightarrow> EnginePlayer) \<Rightarrow> GameEngine" where
  "forAllPlayers s f = s\<lparr>players := map f (players s)\<rparr>"

definition emit :: "GameEngine \<Rightarrow> EngineEvent \<Rightarrow> GameEngine" where
  "emit s e = s\<lparr>emitted := emitted s @ [e]\<rparr>"

definition updatePrivate :: "GameEngine \<Rightarrow> string \<Rightarrow> GameEngine" where
  "updatePrivate s playerId =
     (case getPlayer s playerId of None \<Rightarrow> s | Some player \<Rightarrow> emit s (EvPrivate playerId))"

definition broadcast :: "GameEngine \<Rightarrow> GameEngine" where
  "broadcast s = emit (foldl updatePrivate s (map pid (players s))) EvSnapshot"

definition isHandActive :: "GameEngine \<Rightarrow> bool" where
  "isHandActive s = (phase s \<noteq> Waiting)"

definition seatSlot :: "GameEngine \<Rightarrow> nat \<Rightarrow> string option" where
  "seatSlot s seat = (if 1 \<le> seat \<and> seat \<le> length (seats s) then seats s ! (seat - 1) else None)"

definition getPlayerBySeat :: "GameEngine \<Rightarrow> nat option \<Rightarrow> EnginePlayer option" where
  "getPlayerBySeat s seatIdx =
     (case seatIdx of
        None \<Rightarrow> None
      | Some seat \<Rightarrow> (case seatSlot s seat of None \<Rightarrow> None | Some playerId \<Rightarrow> getPlayer s playerId))"

definition getNextSeatIndex :: "nat \<Rightarrow> nat" where
  "getNextSeatIndex seat = (seat mod SEAT_COUNT) + 1"

text \<open>\<open>findSeatInDirection\<close>: the \<open>for\<close> loop runs \<open>SEAT_COUNT\<close> times; \<open>seatScan\<close>
  carries the number of iterations left.\<close>

fun seatScan :: "GameEngine \<Rightarrow> (EnginePlayer option \<Rightarrow> bool) \<Rightarrow> nat \<Rightarrow> nat \<Rightarrow> nat option" where
  "seatScan s predicate 0 seat = None"
| "seatScan s predicate (Suc n) seat =
     (if predicate (getPlayerBySeat s (Some seat)) then Some seat
      else seatScan s predicate n (getNextSeatIndex seat))"

definition findSeatInDirection ::
  "GameEngine \<Rightarrow> nat option \<Rightarrow> (EnginePlayer option \<Rightarrow> bool) \<Rightarrow> bool \<Rightarrow> nat option" where
  "findSeatInDirection s start predicate includeStart =
     (case start of
        None \<Rightarrow> None
      | Some st \<Rightarrow> seatScan s predicate SEAT_COUNT (if includeStart then st else getNextSeatIndex st))"

definition getNextOccupiedSeat :: "GameEngine \<Rightarrow> nat option \<Rightarrow> nat option" where
  "getNextOccupiedSeat s start = findSeatInDirection s start (\<lambda>player. player \<noteq> None) False"

definition canAct :: "EnginePlayer option \<Rightarrow> bool" where
  "canAct player =
     (case player of None \<Rightarrow> False | Some p \<Rightarrow> inHand p \<and> \<not> hasFolded p \<and> stack p > 0)"

definition findNextActingSeat :: "GameEngine \<Rightarrow> nat option \<Rightarrow> bool \<Rightarrow> nat option" where
  "findNextActingSeat s start includeStart = findSeatInDirection s start canAct includeStart"

definition getSeatLeftOfDealer :: "GameEngine \<Rightarrow> nat" where
  "getSeatLeftOfDealer s =
     (case dealerSeat s of
        None \<Rightarrow> 1
      | Some d \<Rightarrow> (case getNextOccupiedSeat s (Some d) of None \<Rightarrow> d | Some n \<Rightarrow> n))"

text \<open>\<open>findNextDealerSeat\<close>: seat \<open>((current - 1 + i + 1) % SEAT_COUNT) + 1\<close> for
  \<open>i = 0 .. 5\<close>.\<close>

fun dealerScan :: "GameEngine \<Rightarrow> nat \<Rightarrow> nat \<Rightarrow> nat \<Rightarrow> nat option" where
  "dealerScan s current i 0 = None"
| "dealerScan s current i (Suc n) =
     (let seat = ((current - 1 + i + 1) mod SEAT_COUNT) + 1
      in if seatSlot s seat \<noteq> None then Some seat else dealerScan s current (i + 1) n)"

definition findNextDealerSeat :: "GameEngine \<Rightarrow> nat \<Rightarrow> nat option" where
  "findNextDealerSeat s current = dealerScan s current 0 SEAT_COUNT"

definition activePlayers :: "GameEngine \<Rightarrow> EnginePlayer list" where
  "activePlayers s = filter (\<lambda>p. inHand p \<and> \<not> hasFolded p) (players s)"

text \<open>\<open>getEligibleSeatedPlayers\<close>: one pass over the seat array.\<close>

definition eligibleAt :: "GameEngine \<Rightarrow> string option \<Rightarrow> EnginePlayer option" where
  "eligibleAt s slot =
     (case slot of
        None \<Rightarrow> None
      | Some playerId \<Rightarrow>
          (case getPlayer s playerId of
             None \<Rightarrow> None
           | Some player \<Rightarrow>
               if seatIndex player = None then None
               else if handNumber s \<ge> entryHand player then Some player else None))"

definition getEligibleSeatedPlayers :: "GameEngine \<Rightarrow> EnginePlayer list" where
  "getEligibleSeatedPlayers s = List.map_filter (eligibleAt s) (seats s)"

subsection \<open>Pot and side pot\<close>

definition totalPot :: "GameEngine \<Rightarrow> int" where
  "totalPot s = foldl (\<lambda>tot player. tot + totalBet player) 0 (players s)"

text \<open>\<open>Math.min(...xs)\<close> on a list that the caller has checked to be non-empty.\<close>

fun minList :: "int list \<Rightarrow> int" where
  "minList [] = 0"
| "minList [x] = x"
| "minList (x # y # ys) = min x (minList (y # ys))"

definition sidePotStep :: "int \<Rightarrow> int \<times> int \<Rightarrow> EnginePlayer \<Rightarrow> int \<times> int" where
  "sidePotStep cap acc player =
     (let contrib = totalBet player;
          main = fst acc + min contrib cap;
          side = (if contrib > cap then snd acc + (contrib - cap) else snd acc)
      in (main, side))"

definition updateSidePotValues :: "GameEngine \<Rightarrow> GameEngine" where
  "updateSidePotValues s =
     (let allInPlayers = filter (\<lambda>p. stack p = 0) (activePlayers s)
      in if length allInPlayers = 0 then s\<lparr>pot := totalPot s, sidePot := 0\<rparr>
         else let cap = minList (map totalBet allInPlayers);
                  r = foldl (sidePotStep cap) (0, 0) (players s)
              in s\<lparr>pot := fst r, sidePot := snd r\<rparr>)"

definition commitAmount :: "GameEngine \<Rightarrow> string \<Rightarrow> int \<Rightarrow> GameEngine" where
  "commitAmount s playerId amt =
     (let s1 = updatePlayer s playerId
                 (\<lambda>p. let contribution = min (stack p) amt
                      in p\<lparr>stack := stack p - contribution,
                           betThisRound := betThisRound p + contribution,
                           totalBet := totalBet p + contribution\<rparr>);
          s2 = s1\<lparr>pot := totalPot s1\<rparr>
      in updateSidePotValues s2)"

definition callContribution :: "GameEngine \<Rightarrow> EnginePlayer \<Rightarrow> GameEngine" where
  "callContribution s player =
     (let needed = currentBet s - betThisRound player
      in if needed \<le> 0 then s else commitAmount s (pid player) needed)"

subsection \<open>Deck\<close>

definition RANKS :: "Rank list" where
  "RANKS = [RA, R2, R3, R4, R5, R6, R7, R8, R9, R10, RJ, RQ, RK]"

definition SUITS :: "Suit list" where
  "SUITS = [Hearts, Diamonds, Clubs, Spades]"

fun rankName :: "Rank \<Rightarrow> string" where
  "rankName RA = ''A''" | "rankName R2 = ''2''" | "rankName R3 = ''3''" | "rankName R4 = ''4''"
| "rankName R5 = ''5''" | "rankName R6 = ''6''" | "rankName R7 = ''7''" | "rankName R8 = ''8''"
| "rankName R9 = ''9''" | "rankName R10 = ''10''" | "rankName RJ = ''J''" | "rankName RQ = ''Q''"
| "rankName RK = ''K''"

fun suitName :: "Suit \<Rightarrow> string" where
  "suitName Hearts = ''hearts''" | "suitName Diamonds = ''diamonds''"
| "suitName Clubs = ''clubs''" | "suitName Spades = ''spades''"

text \<open>The decimal rendering of the counter 0 .. 51 inside the template string.\<close>

definition showCounter :: "nat \<Rightarrow> string" where
  "showCounter n =
     (if n < 10 then [''0123456789'' ! n]
      else [''0123456789'' ! (n div 10), ''0123456789'' ! (n mod 10)])"

definition freshCard :: "nat \<times> Suit \<times> Rank \<Rightarrow> Card" where
  "freshCard x =
     (case x of (counter, su, r) \<Rightarrow>
        \<lparr> cardIdent = rankName r @ ''-'' @ suitName su @ ''-'' @ showCounter counter,
          rank = r, suit = su \<rparr>)"

definition orderedDeck :: "Card list" where
  "orderedDeck = map freshCard (enumerate 0 (List.product SUITS RANKS))"

text \<open>
  The shuffle loop \<open>for (i = deck.length - 1; i > 0; i -= 1)\<close>. \<open>Math.random\<close> is the
  only source of nondeterminism of the engine: \<open>rnd i\<close> stands for the value of
  \<open>Math.floor(Math.random() * (i + 1))\<close> drawn in iteration \<open>i\<close>, a number in \<open>0 .. i\<close>.
\<close>

fun shuffleLoop :: "(nat \<Rightarrow> nat) \<Rightarrow> nat \<Rightarrow> Card list \<Rightarrow> Card list" where
  "shuffleLoop rnd 0 d = d"
| "shuffleLoop rnd (Suc i) d =
     (let j = rnd (Suc i) in shuffleLoop rnd i (d[Suc i := d ! j, j := d ! Suc i]))"

definition buildDeck :: "(nat \<Rightarrow> nat) \<Rightarrow> Card list" where
  "buildDeck rnd = shuffleLoop rnd (length orderedDeck - 1) orderedDeck"

text \<open>\<open>drawCards\<close>: \<open>deck.pop()\<close> takes the last element; the loop stops early on an
  empty deck. The result is the cards drawn and the deck left.\<close>

fun drawLoop :: "nat \<Rightarrow> Card list \<Rightarrow> Card list \<times> Card list" where
  "drawLoop 0 d = ([], d)"
| "drawLoop (Suc n) d =
     (if d = [] then ([], d)
      else let r = drawLoop n (butlast d) in (last d # fst r, snd r))"

subsection \<open>End of a hand\<close>

definition rotateDealer :: "GameEngine \<Rightarrow> GameEngine" where
  "rotateDealer s =
     (case dealerSeat s of
        None \<Rightarrow>
          (case getNextOccupiedSeat s (Some 1) of
             None \<Rightarrow> s
           | Some seat \<Rightarrow> s\<lparr>dealerSeat := Some seat\<rparr>)
      | Some d \<Rightarrow>
          (case getNextOccupiedSeat s (Some d) of
             None \<Rightarrow> s
           | Some next \<Rightarrow>
               forAllPlayers (s\<lparr>dealerSeat := Some next\<rparr>)
                 (\<lambda>p. p\<lparr>isDealer := (seatIndex p = Some next)\<rparr>)))"

definition endHand :: "GameEngine \<Rightarrow> GameEngine" where
  "endHand s =
     (let s1 = s\<lparr>phase := Waiting, bossCards := [], bossRevealedCount := 0,
                 bossVisible := False, actingSeat := None, awaitingCombo := {},
                 comboQueue := [], comboIndex := 0\<rparr>;
          s2 = rotateDealer s1;
          s3 = forAllPlayers s2
                 (\<lambda>p. p\<lparr>inHand := False, hasFolded := False, comboSelection := [],
                         comboRevealed := None, betThisRound := 0\<rparr>)
      in broadcast s3)"

definition resolveHandByFold :: "GameEngine \<Rightarrow> GameEngine" where
  "resolveHandByFold s =
     (case activePlayers s of
        [] \<Rightarrow> endHand s
      | recipient # _ \<Rightarrow>
          let award = totalPot s;
              s1 = updatePlayer s (pid recipient) (\<lambda>p. p\<lparr>stack := stack p + award\<rparr>);
              res = \<lparr> winners = [(pid recipient, username recipient, award)],
                      bossTotal = computeBossTotal s1, resultKind = WinsByDefault \<rparr>
          in endHand (emit (s1\<lparr>lastResult := Some res\<rparr>) (EvResult res)))"

text \<open>\<open>splitPot\<close> and \<open>awardPot\<close> receive player objects; the model passes them as
  records and writes through their ids. \<open>splitPot\<close> is called with at least two
  players, so the division is by a positive number and \<open>Math.floor\<close> of the quotient is
  integer division.\<close>

definition splitPot :: "GameEngine \<Rightarrow> EnginePlayer list \<Rightarrow> GameEngine" where
  "splitPot s ps =
     (let award = totalPot s div int (length ps);
          s1 = foldl (\<lambda>st player. updatePlayer st (pid player) (\<lambda>p. p\<lparr>stack := stack p + award\<rparr>)) s ps;
          res = \<lparr> winners = map (\<lambda>p. (pid p, username p, award)) ps,
                  bossTotal = computeBossTotal s1, resultKind = SplitPot \<rparr>
      in endHand (emit (s1\<lparr>lastResult := Some res\<rparr>) (EvResult res)))"

definition awardPot :: "GameEngine \<Rightarrow> EnginePlayer \<Rightarrow> GameEngine" where
  "awardPot s player =
     (let tot = totalPot s;
          s1 = updatePlayer s (pid player) (\<lambda>p. p\<lparr>stack := stack p + tot\<rparr>);
          res = \<lparr> winners = [(pid player, username player, tot)],
                  bossTotal = computeBossTotal s1, resultKind = WinsPot \<rparr>
      in endHand (emit (s1\<lparr>lastResult := Some res\<rparr>) (EvResult res)))"

subsection \<open>Combo queue and evaluation\<close>

text \<open>\<open>buildComboOrder\<close>: six seats clockwise from the small-blind seat.\<close>

fun comboOrderLoop :: "GameEngine \<Rightarrow> nat \<Rightarrow> nat \<Rightarrow> nat list" where
  "comboOrderLoop s 0 seat = []"
| "comboOrderLoop s (Suc n) seat =
     (let rest = comboOrderLoop s n (getNextSeatIndex seat)
      in case getPlayerBySeat s (Some seat) of
           None \<Rightarrow> rest
         | Some player \<Rightarrow> if inHand player \<and> \<not> hasFolded player then seat # rest else rest)"

definition buildComboOrder :: "GameEngine \<Rightarrow> nat list" where
  "buildComboOrder s =
     comboOrderLoop s SEAT_COUNT
       (case smallBlindSeat s of Some b \<Rightarrow> b | None \<Rightarrow> getSeatLeftOfDealer s)"

text \<open>\<open>setNextComboActor\<close>: the first queue index from \<open>startIndex\<close> on whose seat
  holds a waiting, non-folded player; the result is the returned boolean and the state.\<close>

definition comboEligible :: "GameEngine \<Rightarrow> nat \<Rightarrow> bool" where
  "comboEligible s seat =
     (case getPlayerBySeat s (Some seat) of
        None \<Rightarrow> False
      | Some player \<Rightarrow> pid player \<in> awaitingCombo s \<and> inHand player \<and> \<not> hasFolded player)"

fun comboScan :: "GameEngine \<Rightarrow> nat list \<Rightarrow> nat \<Rightarrow> (nat \<times> nat) option" where
  "comboScan s [] idx = None"
| "comboScan s (seat # rest) idx =
     (if comboEligible s seat then Some (idx, seat) else comboScan s rest (idx + 1))"

definition setNextComboActor :: "GameEngine \<Rightarrow> nat \<Rightarrow> bool \<times> GameEngine" where
  "setNextComboActor s startIndex =
     (case comboScan s (drop startIndex (comboQueue s)) startIndex of
        Some (idx, seat) \<Rightarrow> (True, s\<lparr>comboIndex := idx, actingSeat := Some seat\<rparr>)
      | None \<Rightarrow> (False, s\<lparr>comboIndex := length (comboQueue s), actingSeat := None\<rparr>))"

record Evaluated =
  evPlayer :: EnginePlayer
  evTotal :: int
  evDiff :: int
  evUnder :: bool
  evSuitMatches :: nat

definition evaluatePlayer :: "GameEngine \<Rightarrow> EnginePlayer \<Rightarrow> Evaluated" where
  "evaluatePlayer s player =
     (let cards = List.map_filter (\<lambda>selection. findCardInHand player (cardId selection))
                    (comboSelection player);
          tot = computeComboTotal player (comboSelection player);
          boss = computeBossTotal s
      in \<lparr> evPlayer = player, evTotal = tot, evDiff = \<bar>boss - tot\<bar>, evUnder = (tot \<le> boss),
           evSuitMatches = countSuitMatches s cards \<rparr>)"

text \<open>The comparator handed to \<open>Array.prototype.sort\<close>, and the sort itself: the sort is
  stable, so the result is the one of a stable insertion sort under the comparator.\<close>

definition compareEvaluated :: "Evaluated \<Rightarrow> Evaluated \<Rightarrow> int" where
  "compareEvaluated a b =
     (if evDiff a \<noteq> evDiff b then evDiff a - evDiff b
      else if evUnder a \<noteq> evUnder b then (if evUnder a then - 1 else 1)
      else if evSuitMatches a \<noteq> evSuitMatches b then int (evSuitMatches b) - int (evSuitMatches a)
      else 0)"

fun insertEvaluated :: "Evaluated \<Rightarrow> Evaluated list \<Rightarrow> Evaluated list" where
  "insertEvaluated x [] = [x]"
| "insertEvaluated x (y # ys) =
     (if compareEvaluated x y \<le> 0 then x # y # ys else y # insertEvaluated x ys)"

definition sortEvaluated :: "Evaluated list \<Rightarrow> Evaluated list" where
  "sortEvaluated xs = foldr insertEvaluated xs []"

definition sameKeys :: "Evaluated \<Rightarrow> Evaluated \<Rightarrow> bool" where
  "sameKeys best item =
     (evDiff item = evDiff best \<and> evUnder item = evUnder best
      \<and> evSuitMatches item = evSuitMatches best)"

definition contenders :: "GameEngine \<Rightarrow> EnginePlayer list" where
  "contenders s = filter (\<lambda>p. \<not> hasFolded p) (activePlayers s)"

definition evaluatedSorted :: "GameEngine \<Rightarrow> Evaluated list" where
  "evaluatedSorted s = sortEvaluated (map (evaluatePlayer s) (contenders s))"

definition comboTies :: "GameEngine \<Rightarrow> Evaluated list" where
  "comboTies s = filter (sameKeys (hd (evaluatedSorted s))) (evaluatedSorted s)"

subsection \<open>Betting rounds, combo phase and sudden death\<close>

text \<open>
  \<open>startBettingRound\<close>, \<open>finishBettingRound\<close>, \<open>enterComboPhase\<close>, \<open>evaluateCombos\<close> and
  \<open>startOxtail\<close> call each other. The straight-line part of each method is a definition
  of its own (\<open>beginRound\<close>, \<open>resetRound\<close>, \<open>prepareCombo\<close>, \<open>oxtailDraw\<close>); the
  methods themselves are one mutually recursive function, which terminates because every
  pass through \<open>startOxtail\<close> takes a card off the deck.
\<close>

definition beginRound :: "GameEngine \<Rightarrow> nat option \<Rightarrow> GameEngine" where
  "beginRound s referenceSeat =
     (let startSeat = (case referenceSeat of
                         Some r \<Rightarrow> r
                       | None \<Rightarrow> (case smallBlindSeat s of
                                    Some b \<Rightarrow> b
                                  | None \<Rightarrow> getSeatLeftOfDealer s));
          s1 = s\<lparr>actedThisRound := {}\<rparr>
      in s1\<lparr>actingSeat := findNextActingSeat s1 (Some startSeat) True\<rparr>)"

definition resetRound :: "GameEngine \<Rightarrow> GameEngine" where
  "resetRound s =
     (forAllPlayers (s\<lparr>actingSeat := None, actedThisRound := {}\<rparr>) (\<lambda>p. p\<lparr>betThisRound := 0\<rparr>))
       \<lparr>currentBet := 0, minimumRaise := RAISE_INCREMENT\<rparr>"

definition comboEnroll :: "bool \<Rightarrow> GameEngine \<Rightarrow> EnginePlayer \<Rightarrow> GameEngine" where
  "comboEnroll oxtail st player =
     (let st1 = st\<lparr>awaitingCombo := insert (pid player) (awaitingCombo st)\<rparr>
      in if \<not> oxtail
         then updatePlayer st1 (pid player) (\<lambda>p. p\<lparr>comboSelection := [], comboRevealed := None\<rparr>)
         else st1)"

definition prepareCombo :: "GameEngine \<Rightarrow> bool \<Rightarrow> GameEngine" where
  "prepareCombo s oxtail =
     (let s1 = s\<lparr>phase := Combo, awaitingCombo := {}\<rparr>;
          s2 = foldl (comboEnroll oxtail) s1 (activePlayers s1);
          s3 = s2\<lparr>comboQueue := buildComboOrder s2\<rparr>
      in s3\<lparr>comboIndex := 0\<rparr>)"

text \<open>\<open>startOxtail\<close> up to its call of \<open>startBettingRound\<close>. Its only caller has checked
  that the deck is not empty, so \<open>drawCards(1)[0]\<close> is the last card of the deck.\<close>

definition oxtailDraw :: "GameEngine \<Rightarrow> GameEngine" where
  "oxtailDraw s =
     (let s1 = s\<lparr>phase := Oxtail\<rparr>;
          r = drawLoop 1 (deck s1);
          s2 = s1\<lparr>deck := snd r\<rparr>
      in s2\<lparr>bossCards := bossCards s2 @ take 1 (fst r),
             bossRevealedCount := bossRevealedCount s2 + 1\<rparr>)"

text \<open>The deck and the phase after the straight-line parts (used for termination).\<close>

lemma deck_beginRound [simp]: "deck (beginRound s r) = deck s"
  by (simp add: beginRound_def Let_def)

lemma phase_beginRound [simp]: "phase (beginRound s r) = phase s"
  by (simp add: beginRound_def Let_def)

lemma deck_resetRound [simp]: "deck (resetRound s) = deck s"
  by (simp add: resetRound_def forAllPlayers_def)

lemma phase_resetRound [simp]: "phase (resetRound s) = phase s"
  by (simp add: resetRound_def forAllPlayers_def)

lemma deck_comboEnroll_fold: "deck (foldl (comboEnroll b) s ps) = deck s"
  by (induction ps arbitrary: s) (simp_all add: comboEnroll_def Let_def updatePlayer_def)

lemma deck_prepareCombo [simp]: "deck (prepareCombo s b) = deck s"
  by (simp add: prepareCombo_def Let_def deck_comboEnroll_fold)

lemma deck_setNextComboActor [simp]: "deck (snd (setNextComboActor s n)) = deck s"
  by (simp add: setNextComboActor_def split: option.splits)

lemma deck_oxtailDraw: "deck s \<noteq> [] \<Longrightarrow> length (deck (oxtailDraw s)) < length (deck s)"
  by (simp add: oxtailDraw_def Let_def)

fun phaseRank :: "Phase \<Rightarrow> nat" where
  "phaseRank Rush = 3"
| "phaseRank Charge = 2"
| "phaseRank Stomp = 1"
| "phaseRank Oxtail = 1"
| "phaseRank _ = 0"

text \<open>In \<open>startOxtail\<close> the branch for an empty deck is never taken by the engine (see
  \<open>evaluateCombos\<close>); there the source would push \<open>undefined\<close> onto the boss cards.\<close>

function startBettingRound :: "GameEngine \<Rightarrow> nat option \<Rightarrow> GameEngine"
  and finishBettingRound :: "GameEngine \<Rightarrow> GameEngine"
  and enterComboPhase :: "GameEngine \<Rightarrow> bool \<Rightarrow> GameEngine"
  and evaluateCombos :: "GameEngine \<Rightarrow> GameEngine"
  and startOxtail :: "GameEngine \<Rightarrow> GameEngine"
where
  "startBettingRound s referenceSeat =
     (if actingSeat (beginRound s referenceSeat) = None
      then finishBettingRound (beginRound s referenceSeat)
      else beginRound s referenceSeat)"
| "finishBettingRound s =
     (if length (activePlayers (resetRound s)) \<le> 1 then resolveHandByFold (resetRound s)
      else case phase (resetRound s) of
             Rush \<Rightarrow> startBettingRound ((resetRound s)\<lparr>phase := Charge, bossRevealedCount := 4\<rparr>)
                       (smallBlindSeat (resetRound s))
           | Charge \<Rightarrow> startBettingRound ((resetRound s)\<lparr>phase := Stomp, bossRevealedCount := 5\<rparr>)
                         (smallBlindSeat (resetRound s))
           | Stomp \<Rightarrow> enterComboPhase (resetRound s) False
           | Oxtail \<Rightarrow> enterComboPhase (resetRound s) True
           | _ \<Rightarrow> resetRound s)"
| "enterComboPhase s oxtail =
     (if awaitingCombo (prepareCombo s oxtail) = {}
      then evaluateCombos ((prepareCombo s oxtail)\<lparr>actingSeat := None\<rparr>)
      else if \<not> fst (setNextComboActor (prepareCombo s oxtail) 0)
      then evaluateCombos (snd (setNextComboActor (prepareCombo s oxtail) 0))
      else broadcast (snd (setNextComboActor (prepareCombo s oxtail) 0)))"
| "evaluateCombos s =
     (if length (contenders s) = 0 then resolveHandByFold s
      else if length (comboTies s) > 1
      then (if length (deck s) = 0 then splitPot s (map evPlayer (comboTies s))
            else startOxtail s)
      else awardPot s (evPlayer (hd (evaluatedSorted s))))"
| "startOxtail s =
     (if deck s = [] then s
      else startBettingRound (oxtailDraw s) (smallBlindSeat (oxtailDraw s)))"
  by pat_completeness auto

termination
proof (relation "measure (\<lambda>x. case x of
       Inl (Inl (s, r)) \<Rightarrow> 11 * length (deck s) + 2 * phaseRank (phase s) + 4
     | Inl (Inr s) \<Rightarrow> 11 * length (deck s) + 2 * phaseRank (phase s) + 3
     | Inr (Inl (s, b)) \<Rightarrow> 11 * length (deck s) + 2
     | Inr (Inr (Inl s)) \<Rightarrow> 11 * length (deck s) + 1
     | Inr (Inr (Inr s)) \<Rightarrow> 11 * length (deck s))", goal_cases)
  case (10 s)
  then show ?case by (cases "deck s") (simp_all add: oxtailDraw_def Let_def)
qed simp_all

declare startBettingRound.simps [simp del] finishBettingRound.simps [simp del]
  enterComboPhase.simps [simp del] evaluateCombos.simps [simp del] startOxtail.simps [simp del]

subsection \<open>Starting a hand\<close>

definition resetPlayersForHand :: "GameEngine \<Rightarrow> EnginePlayer list \<Rightarrow> GameEngine" where
  "resetPlayersForHand s ps =
     (let s1 = forAllPlayers s
                 (\<lambda>p. p\<lparr>inHand := False, hasFolded := False, betThisRound := 0, totalBet := 0,
                         comboSelection := [], comboRevealed := None, isSmallBlind := False,
                         isBigBlind := False, hand := []\<rparr>)
      in foldl (\<lambda>st player. updatePlayer st (pid player) (\<lambda>p. p\<lparr>inHand := True\<rparr>)) s1 ps)"

definition dealOne :: "GameEngine \<Rightarrow> EnginePlayer \<Rightarrow> GameEngine" where
  "dealOne st player =
     (let r = drawLoop 7 (deck st)
      in updatePlayer (st\<lparr>deck := snd r\<rparr>) (pid player) (\<lambda>p. p\<lparr>hand := fst r\<rparr>))"

definition dealHands :: "GameEngine \<Rightarrow> EnginePlayer list \<Rightarrow> GameEngine" where
  "dealHands s ps = foldl dealOne s ps"

text \<open>
  A blind: \<open>commitAmount\<close>, then \<open>betThisRound\<close> is overwritten with the nominal blind
  and \<open>currentBet\<close> raised to it. \<open>small\<close> tells which of the two role flags is set.
\<close>

definition postBlind :: "GameEngine \<Rightarrow> string \<Rightarrow> int \<Rightarrow> bool \<Rightarrow> GameEngine" where
  "postBlind s playerId blind small =
     (let s1 = updatePlayer s playerId
                 (\<lambda>p. if small then p\<lparr>isSmallBlind := True\<rparr> else p\<lparr>isBigBlind := True\<rparr>);
          s2 = commitAmount s1 playerId blind;
          s3 = updatePlayer s2 playerId (\<lambda>p. p\<lparr>betThisRound := blind\<rparr>)
      in s3\<lparr>currentBet := max (currentBet s3) blind\<rparr>)"

text \<open>\<open>assignBlinds\<close> is called with the eligible players, of which there are at least
  two; \<open>players[0]\<close> on an empty list is not reached.\<close>

definition assignBlinds :: "GameEngine \<Rightarrow> EnginePlayer list \<Rightarrow> GameEngine" where
  "assignBlinds s ps =
     (let s1 = (if dealerSeat s = None
                then (case ps of
                        [] \<Rightarrow> s
                      | first # _ \<Rightarrow>
                          updatePlayer (s\<lparr>dealerSeat := seatIndex first\<rparr>) (pid first)
                            (\<lambda>p. p\<lparr>isDealer := True\<rparr>))
                else s);
          s2 = foldl (\<lambda>st player. updatePlayer st (pid player)
                        (\<lambda>p. p\<lparr>isDealer := (seatIndex p = dealerSeat st)\<rparr>)) s1 ps;
          sbSeat = (if length ps = 2 then dealerSeat s2
                    else getNextOccupiedSeat s2 (dealerSeat s2));
          bbSeat = getNextOccupiedSeat s2 sbSeat;
          s3 = s2\<lparr>smallBlindSeat := sbSeat\<rparr>;
          sbPlayer = getPlayerBySeat s3 sbSeat;
          bbPlayer = getPlayerBySeat s3 bbSeat;
          s4 = (case sbPlayer of None \<Rightarrow> s3 | Some sb \<Rightarrow> postBlind s3 (pid sb) SMALL_BLIND True)
      in (case bbPlayer of None \<Rightarrow> s4 | Some bb \<Rightarrow> postBlind s4 (pid bb) BIG_BLIND False))"

definition beginHand :: "GameEngine \<Rightarrow> EnginePlayer list \<Rightarrow> (nat \<Rightarrow> nat) \<Rightarrow> GameEngine" where
  "beginHand s ps rnd =
     (let s1 = s\<lparr>handNumber := handNumber s + 1\<rparr>;
          s2 = resetPlayersForHand s1 ps;
          s3 = s2\<lparr>deck := buildDeck rnd\<rparr>;
          r = drawLoop 5 (deck s3);
          s4 = s3\<lparr>deck := snd r, bossCards := fst r, bossRevealedCount := 3, bossVisible := False,
                  phase := Rush, pot := 0, sidePot := 0, currentBet := 0,
                  minimumRaise := RAISE_INCREMENT\<rparr>;
          s5 = dealHands s4 ps;
          s6 = s5\<lparr>bossVisible := True\<rparr>;
          s7 = assignBlinds s6 ps
      in startBettingRound s7 (smallBlindSeat s7))"

subsection \<open>Turn bookkeeping\<close>

definition haveAllRequiredPlayersActed :: "GameEngine \<Rightarrow> bool" where
  "haveAllRequiredPlayersActed s =
     list_all (\<lambda>player.
         if \<not> inHand player \<or> hasFolded player then True
         else case seatIndex player of
                None \<Rightarrow> True
              | Some seat \<Rightarrow> if stack player = 0 then True else seat \<in> actedThisRound s)
       (players s)"

definition isBettingRoundComplete :: "GameEngine \<Rightarrow> bool" where
  "isBettingRoundComplete s =
     (let active = activePlayers s
      in if length active \<le> 1 then True
         else if \<not> haveAllRequiredPlayersActed s then False
         else list_all (\<lambda>p. betThisRound p = currentBet s \<or> stack p = 0) active)"

definition markSeatActed :: "GameEngine \<Rightarrow> nat option \<Rightarrow> bool \<Rightarrow> GameEngine" where
  "markSeatActed s seatIdx reset =
     (case seatIdx of
        None \<Rightarrow> s
      | Some seat \<Rightarrow>
          let s1 = (if reset then s\<lparr>actedThisRound := {}\<rparr> else s)
          in s1\<lparr>actedThisRound := insert seat (actedThisRound s1)\<rparr>)"

definition advanceTurn :: "GameEngine \<Rightarrow> GameEngine" where
  "advanceTurn s =
     (if actingSeat s = None then s
      else if isBettingRoundComplete s then finishBettingRound s
      else let s1 = s\<lparr>actingSeat := findNextActingSeat s (actingSeat s) False\<rparr>
           in if actingSeat s1 = None then finishBettingRound s1 else s1)"

subsection \<open>The public methods\<close>

definition newPlayer :: "GameEngine \<Rightarrow> string \<Rightarrow> string \<Rightarrow> EnginePlayer" where
  "newPlayer s playerId name =
     \<lparr> pid = playerId, username = name, seatIndex = None, stack = STARTING_STACK,
       entryHand = handNumber s + (if isHandActive s then 1 else 0), hand = [],
       inHand = False, hasFolded = False, betThisRound = 0, totalBet = 0,
       comboSelection = [], comboRevealed = None, isDealer = False, isSmallBlind = False,
       isBigBlind = False \<rparr>"

definition join :: "GameEngine \<Rightarrow> string \<Rightarrow> string \<Rightarrow> GameEngine" where
  "join s playerId name =
     (let s1 = (if getPlayer s playerId = None
                then s\<lparr>players := players s @ [newPlayer s playerId name]\<rparr>
                else updatePlayer s playerId (\<lambda>p. p\<lparr>username := name\<rparr>))
      in broadcast (updatePrivate s1 playerId))"

definition seatTake :: "GameEngine \<Rightarrow> string \<Rightarrow> nat \<Rightarrow> GameEngine" where
  "seatTake s playerId seat =
     (case getPlayer s playerId of
        None \<Rightarrow> emit s (EvError (Some playerId) ''Join first'')
      | Some player \<Rightarrow>
          if seatSlot s seat \<noteq> None \<and> seatSlot s seat \<noteq> Some playerId
          then emit s (EvError (Some playerId) ''Seat taken'')
          else
            let s1 = (case seatIndex player of
                        None \<Rightarrow> s
                      | Some old \<Rightarrow> s\<lparr>seats := (seats s)[old - 1 := None]\<rparr>);
                s2 = s1\<lparr>seats := (seats s1)[seat - 1 := Some playerId]\<rparr>;
                s3 = updatePlayer s2 playerId
                       (\<lambda>p. p\<lparr>seatIndex := Some seat,
                               entryHand := handNumber s2 + (if isHandActive s2 then 1 else 0)\<rparr>);
                s4 = (if dealerSeat s3 = None
                      then updatePlayer (s3\<lparr>dealerSeat := Some seat\<rparr>) playerId
                             (\<lambda>p. p\<lparr>isDealer := True\<rparr>)
                      else s3)
            in broadcast s4)"

definition seatLeave :: "GameEngine \<Rightarrow> string \<Rightarrow> GameEngine" where
  "seatLeave s playerId =
     (case getPlayer s playerId of
        None \<Rightarrow> s
      | Some player \<Rightarrow>
          let s1 = (case seatIndex player of
                      None \<Rightarrow> s
                    | Some seat \<Rightarrow>
                        let s0 = (if dealerSeat s = Some seat \<and> phase s = Waiting
                                  then s\<lparr>dealerSeat := findNextDealerSeat s seat\<rparr> else s)
                        in s0\<lparr>seats := (seats s0)[seat - 1 := None]\<rparr>);
              s2 = (if inHand player
                    then updatePlayer s1 playerId (\<lambda>p. p\<lparr>hasFolded := True, inHand := False\<rparr>)
                    else s1);
              leftSeat = seatIndex player;
              s3 = updatePlayer s2 playerId (\<lambda>p. p\<lparr>seatIndex := None\<rparr>)
          in if phase s3 = Combo \<and> playerId \<in> awaitingCombo s3
             then
               (let s4 = s3\<lparr>awaitingCombo := awaitingCombo s3 - {playerId}\<rparr>
                in if leftSeat = actingSeat s4
                   then (if awaitingCombo s4 = {}
                         then broadcast (evaluateCombos (s4\<lparr>actingSeat := None\<rparr>))
                         else if \<not> fst (setNextComboActor s4 (comboIndex s4 + 1))
                         then broadcast (evaluateCombos (snd (setNextComboActor s4 (comboIndex s4 + 1))))
                         else broadcast (snd (setNextComboActor s4 (comboIndex s4 + 1))))
                   else broadcast s4)
             else if leftSeat \<noteq> None \<and> leftSeat = actingSeat s3
             then broadcast (advanceTurn s3)
             else broadcast s3)"

definition startHand :: "GameEngine \<Rightarrow> string \<Rightarrow> (nat \<Rightarrow> nat) \<Rightarrow> GameEngine" where
  "startHand s playerId rnd =
     (if (case getPlayer s playerId of None \<Rightarrow> True | Some player \<Rightarrow> \<not> isDealer player)
      then emit s (EvError (Some playerId) ''Only dealer can start'')
      else if isHandActive s
      then emit s (EvError (Some playerId) ''Hand already running'')
      else let seated = getEligibleSeatedPlayers s
           in if length seated < 2
              then emit s (EvError (Some playerId) ''Need at least two players'')
              else broadcast (beginHand s seated rnd))"

text \<open>
  The \<open>switch\<close> of \<open>betAction\<close>: either the text of the rejection, or the state after
  the action together with \<open>resetActed\<close>. Every rejection happens before the first
  write. The requested amount is a JavaScript number; a value that is not an integer
  fails the test \<open>desiredRaise % RAISE_INCREMENT !== 0\<close>, so the model takes integers.
\<close>

definition applyBet :: "GameEngine \<Rightarrow> EnginePlayer \<Rightarrow> BetActionMessage \<Rightarrow> string + GameEngine \<times> bool" where
  "applyBet s player msg =
     (case action msg of
        Fold \<Rightarrow>
          Inr (updatePlayer s (pid player) (\<lambda>p. p\<lparr>hasFolded := True, inHand := False\<rparr>), False)
      | Check \<Rightarrow>
          if currentBet s > betThisRound player then Inl ''Cannot check'' else Inr (s, False)
      | Call \<Rightarrow> Inr (callContribution s player, False)
      | Raise \<Rightarrow>
          if stack player \<le> 0 then Inl ''No chips''
          else
            let desiredRaise = (case amount msg of None \<Rightarrow> RAISE_INCREMENT | Some a \<Rightarrow> a)
            in if desiredRaise < RAISE_INCREMENT \<or> desiredRaise mod RAISE_INCREMENT \<noteq> 0
               then Inl ''Invalid raise amount''
               else
                 let callNeeded = max 0 (currentBet s - betThisRound player)
                 in if stack player \<le> callNeeded then Inl ''Not enough chips to raise''
                    else
                      let availableRaise =
                            min desiredRaise
                              (((stack player - callNeeded) div RAISE_INCREMENT) * RAISE_INCREMENT)
                      in if availableRaise < RAISE_INCREMENT then Inl ''Raise below minimum''
                         else
                           let needed = callNeeded + availableRaise;
                               s1 = commitAmount s (pid player) needed;
                               s2 = s1\<lparr>currentBet :=
                                         (case getPlayer s1 (pid player) of
                                            None \<Rightarrow> currentBet s1
                                          | Some p \<Rightarrow> betThisRound p)\<rparr>
                           in Inr (s2\<lparr>minimumRaise := max RAISE_INCREMENT availableRaise\<rparr>, True))"

definition betAction :: "GameEngine \<Rightarrow> string \<Rightarrow> BetActionMessage \<Rightarrow> GameEngine" where
  "betAction s playerId msg =
     (case getPlayer s playerId of
        None \<Rightarrow> emit s (EvError (Some playerId) ''Invalid action'')
      | Some player \<Rightarrow>
          if \<not> inHand player \<or> hasFolded player
          then emit s (EvError (Some playerId) ''Invalid action'')
          else if actingSeat s = None \<or> seatIndex player \<noteq> actingSeat s
          then emit s (EvError (Some playerId) ''Not your turn'')
          else if seatIndex player = None
          then emit s (EvError (Some playerId) ''Invalid seat'')
          else (case applyBet s player msg of
                  Inl reason \<Rightarrow> emit s (EvError (Some playerId) reason)
                | Inr (s1, resetActed) \<Rightarrow>
                    broadcast (advanceTurn (markSeatActed s1 (seatIndex player) resetActed))))"

definition comboUpdate :: "GameEngine \<Rightarrow> string \<Rightarrow> ComboSelection list \<Rightarrow> GameEngine" where
  "comboUpdate s playerId selections =
     (case getPlayer s playerId of
        None \<Rightarrow> s
      | Some player \<Rightarrow>
          if length (hand player) = 0 then s
          else updatePrivate
                 (updatePlayer s playerId
                    (\<lambda>p. p\<lparr>comboSelection := sanitizeSelections player selections\<rparr>))
                 playerId)"

text \<open>\<open>comboSubmit\<close>: \<open>lockCombo\<close> is the part between the last rejection and the
  test \<open>awaitingCombo.size === 0\<close>.\<close>

definition lockCombo :: "GameEngine \<Rightarrow> EnginePlayer \<Rightarrow> ComboSelection list \<Rightarrow> GameEngine" where
  "lockCombo s player selections =
     (updatePlayer s (pid player)
        (\<lambda>p. p\<lparr>comboSelection := selections,
                comboRevealed :=
                  Some (List.map_filter (\<lambda>selection. findCardInHand player (cardId selection))
                          selections)\<rparr>))
       \<lparr>awaitingCombo := awaitingCombo s - {pid player}\<rparr>"

definition comboSubmit :: "GameEngine \<Rightarrow> string \<Rightarrow> ComboSelection list \<Rightarrow> GameEngine" where
  "comboSubmit s playerId selections =
     (case getPlayer s playerId of
        None \<Rightarrow> s
      | Some player \<Rightarrow>
          if \<not> inHand player \<or> hasFolded player then s
          else if phase s \<noteq> Combo then emit s (EvError (Some playerId) ''Not combo phase'')
          else if playerId \<notin> awaitingCombo s then s
          else if seatIndex player = None \<or> seatIndex player \<noteq> actingSeat s
          then emit s (EvError (Some playerId) ''Not your turn'')
          else
            let sel = sanitizeSelections player selections;
                tot = computeComboTotal player sel;
                boss = computeBossTotal s
            in if tot > boss
               then emit s (EvError (Some playerId) ''Combo exceeds Boss total'')
               else
                 let s1 = lockCombo s player sel
                 in if awaitingCombo s1 = {}
                    then evaluateCombos (s1\<lparr>actingSeat := None\<rparr>)
                    else if \<not> fst (setNextComboActor s1 (comboIndex s1 + 1))
                    then evaluateCombos (snd (setNextComboActor s1 (comboIndex s1 + 1)))
                    else broadcast (snd (setNextComboActor s1 (comboIndex s1 + 1))))"

definition restartTable :: "GameEngine \<Rightarrow> GameEngine" where
  "restartTable s =
     broadcast
       ((forAllPlayers s
           (\<lambda>p. p\<lparr>stack := STARTING_STACK, seatIndex := None, entryHand := 0, hand := [],
                   inHand := False, hasFolded := False, betThisRound := 0, totalBet := 0,
                   comboSelection := [], comboRevealed := None, isDealer := False,
                   isSmallBlind := False, isBigBlind := False\<rparr>))
        \<lparr>seats := replicate SEAT_COUNT None, handNumber := 0, deck := [], bossCards := [],
         bossRevealedCount := 0, bossVisible := False, smallBlindSeat := None,
         phase := Waiting, dealerSeat := None, currentBet := 0,
         minimumRaise := RAISE_INCREMENT, pot := 0, sidePot := 0, actingSeat := None,
         awaitingCombo := {}, comboQueue := [], comboIndex := 0, lastResult := None,
         actedThisRound := {}\<rparr>)"

text \<open>
  The states the engine can be in: the initial one and those a sequence of calls of the
  public methods leads to. The seat of \<open>seatTake\<close> ranges over its type, and the numbers
  \<open>Math.random\<close> yields in the shuffle over \<open>0 .. i\<close>.
\<close>

inductive reachable :: "GameEngine \<Rightarrow> bool" where
  r_init: "reachable initialEngine"
| r_join: "reachable s \<Longrightarrow> reachable (join s playerId name)"
| r_seatTake: "reachable s \<Longrightarrow> 1 \<le> seat \<Longrightarrow> seat \<le> SEAT_COUNT \<Longrightarrow> reachable (seatTake s playerId seat)"
| r_seatLeave: "reachable s \<Longrightarrow> reachable (seatLeave s playerId)"
| r_startHand: "reachable s \<Longrightarrow> (\<forall>i. rnd i \<le> i) \<Longrightarrow> reachable (startHand s playerId rnd)"
| r_betAction: "reachable s \<Longrightarrow> reachable (betAction s playerId msg)"
| r_comboUpdate: "reachable s \<Longrightarrow> reachable (comboUpdate s playerId selections)"
| r_comboSubmit: "reachable s \<Longrightarrow> reachable (comboSubmit s playerId selections)"
| r_restartTable: "reachable s \<Longrightarrow> reachable (restartTable s)"

section \<open>Verification\<close>

subsection \<open>What the helpers leave alone\<close>

lemma getPlayer_emit [simp]: "getPlayer (emit s e) i = getPlayer s i"
  by (simp add: getPlayer_def emit_def)

lemma getPlayer_pid: "getPlayer s i = Some p \<Longrightarrow> pid p = i \<and> p \<in> set (players s)"
  by (auto simp: getPlayer_def find_Some_iff)

lemma getPlayer_member: "p \<in> set (players s) \<Longrightarrow> getPlayer s (pid p) \<noteq> None"
  by (auto simp: getPlayer_def find_None_iff)

lemma foldl_updatePrivate:
  "\<forall>i \<in> set ids. getPlayer s i \<noteq> None \<Longrightarrow>
   foldl updatePrivate s ids = s\<lparr>emitted := emitted s @ map EvPrivate ids\<rparr>"
proof (induction ids arbitrary: s)
  case Nil
  show ?case by simp
next
  case (Cons i ids)
  from Cons.prems obtain p where p: "getPlayer s i = Some p" by auto
  have step: "updatePrivate s i = emit s (EvPrivate i)"
    by (simp add: updatePrivate_def p)
  have "\<forall>j \<in> set ids. getPlayer (emit s (EvPrivate i)) j \<noteq> None"
    using Cons.prems by simp
  from Cons.IH[OF this] show ?case
    by (simp add: step) (simp add: emit_def)
qed

lemma broadcast_eq:
  "broadcast s = s\<lparr>emitted := emitted s @ map EvPrivate (map pid (players s)) @ [EvSnapshot]\<rparr>"
proof -
  have "\<forall>i \<in> set (map pid (players s)). getPlayer s i \<noteq> None"
    using getPlayer_member by fastforce
  from foldl_updatePrivate[OF this] show ?thesis
    by (simp add: broadcast_def emit_def)
qed

definition isError :: "EngineEvent \<Rightarrow> bool" where
  "isError e = (case e of EvError _ _ \<Rightarrow> True | _ \<Rightarrow> False)"

definition errorsOf :: "GameEngine \<Rightarrow> EngineEvent list" where
  "errorsOf s = filter isError (emitted s)"

lemma errorsOf_broadcast [simp]: "errorsOf (broadcast s) = errorsOf s"
  by (simp add: broadcast_eq errorsOf_def isError_def filter_empty_conv)

text \<open>
  \<open>pstep p p'\<close>: the fields of a player that no step after the start of a hand writes,
  and \<open>inHand\<close>, which such a step can only clear. \<open>framed s s'\<close> lifts this to the
  table, with the table fields that stay fixed during a hand.
\<close>

definition pstep :: "EnginePlayer \<Rightarrow> EnginePlayer \<Rightarrow> bool" where
  "pstep p p' =
     (pid p' = pid p \<and> username p' = username p \<and> seatIndex p' = seatIndex p
      \<and> entryHand p' = entryHand p \<and> hand p' = hand p \<and> totalBet p' = totalBet p
      \<and> (inHand p' \<longrightarrow> inHand p))"

definition framed :: "GameEngine \<Rightarrow> GameEngine \<Rightarrow> bool" where
  "framed s s' =
     (list_all2 pstep (players s) (players s') \<and> seats s' = seats s
      \<and> handNumber s' = handNumber s \<and> pot s' = pot s \<and> sidePot s' = sidePot s
      \<and> smallBlindSeat s' = smallBlindSeat s \<and> errorsOf s' = errorsOf s
      \<and> length (deck s') \<le> length (deck s))"

lemma pstep_refl [simp]: "pstep p p"
  by (simp add: pstep_def)

lemma pstep_trans: "pstep p q \<Longrightarrow> pstep q r \<Longrightarrow> pstep p r"
  by (simp add: pstep_def)

lemma framed_refl [simp]: "framed s s"
  by (simp add: framed_def list_all2_refl)

lemma framed_trans:
  assumes "framed s t" and "framed t u"
  shows "framed s u"
proof -
  have a: "list_all2 pstep (players s) (players t)" and b: "list_all2 pstep (players t) (players u)"
    using assms by (simp_all add: framed_def)
  have "list_all2 pstep (players s) (players u)"
    by (rule list_all2_trans[of pstep pstep pstep, OF pstep_trans a b])
  then show ?thesis using assms by (simp add: framed_def)
qed

lemma list_all2_pstep_map: "(\<And>p. pstep p (f p)) \<Longrightarrow> list_all2 pstep ps (map f ps)"
  by (simp add: list_all2_map2 list_all2_refl)

lemma framed_players:
  assumes "\<And>p. pstep p (f p)"
  shows "framed s (s\<lparr>players := map f (players s)\<rparr>)"
  using assms by (simp add: framed_def list_all2_pstep_map errorsOf_def)

lemma framed_updatePlayer: "(\<And>p. pstep p (f p)) \<Longrightarrow> framed s (updatePlayer s i f)"
  unfolding updatePlayer_def by (rule framed_players) simp

lemma framed_forAllPlayers: "(\<And>p. pstep p (f p)) \<Longrightarrow> framed s (forAllPlayers s f)"
  unfolding forAllPlayers_def by (rule framed_players)

lemma framed_broadcast [simp]: "framed s (broadcast s)"
proof -
  have "errorsOf (broadcast s) = errorsOf s" by simp
  then show ?thesis by (simp add: framed_def broadcast_eq list_all2_refl)
qed

lemma framed_result: "framed s (emit (s\<lparr>lastResult := r\<rparr>) (EvResult res))"
  by (simp add: framed_def emit_def list_all2_refl errorsOf_def isError_def)

lemma framed_rotateDealer: "framed s (rotateDealer s)"
proof -
  have a: "framed s (s\<lparr>dealerSeat := d\<rparr>)" for d
    by (simp add: framed_def list_all2_refl errorsOf_def)
  have b: "framed (s\<lparr>dealerSeat := d\<rparr>)
             (forAllPlayers (s\<lparr>dealerSeat := d\<rparr>) (\<lambda>p. p\<lparr>isDealer := (seatIndex p = Some n)\<rparr>))" for d n
    by (rule framed_forAllPlayers) (simp add: pstep_def)
  note c = framed_trans[OF a b]
  show ?thesis
  proof (cases "dealerSeat s")
    case None
    then show ?thesis
      by (cases "getNextOccupiedSeat s (Some 1)") (simp_all add: rotateDealer_def a)
  next
    case (Some d)
    then show ?thesis
      by (cases "getNextOccupiedSeat s (Some d)") (simp_all add: rotateDealer_def c)
  qed
qed

lemma framed_endHand: "framed s (endHand s)"
proof -
  define s1 where "s1 = s\<lparr>phase := Waiting, bossCards := [], bossRevealedCount := 0,
                 bossVisible := False, actingSeat := None, awaitingCombo := {},
                 comboQueue := [], comboIndex := 0\<rparr>"
  have a: "framed s s1"
    by (simp add: s1_def framed_def list_all2_refl errorsOf_def)
  have b: "framed s1 (rotateDealer s1)" by (rule framed_rotateDealer)
  have c: "framed (rotateDealer s1) (forAllPlayers (rotateDealer s1)
                 (\<lambda>p. p\<lparr>inHand := False, hasFolded := False, comboSelection := [],
                         comboRevealed := None, betThisRound := 0\<rparr>))"
    by (rule framed_forAllPlayers) (simp add: pstep_def)
  have "endHand s = broadcast (forAllPlayers (rotateDealer s1)
                 (\<lambda>p. p\<lparr>inHand := False, hasFolded := False, comboSelection := [],
                         comboRevealed := None, betThisRound := 0\<rparr>))"
    by (simp add: endHand_def s1_def Let_def)
  then show ?thesis
    using framed_trans[OF a framed_trans[OF b framed_trans[OF c framed_broadcast]]] by simp
qed

lemma framed_stack: "framed s (updatePlayer s i (\<lambda>p. p\<lparr>stack := g p\<rparr>))"
  by (rule framed_updatePlayer) (simp add: pstep_def)

lemma framed_stack_fold:
  "framed s (foldl (\<lambda>st player. updatePlayer st (pid player) (\<lambda>p. p\<lparr>stack := stack p + a\<rparr>)) s ps)"
proof (induction ps arbitrary: s)
  case Nil
  show ?case by simp
next
  case (Cons x xs)
  show ?case
    using framed_trans[OF framed_stack Cons.IH] by simp
qed

lemma framed_resolveHandByFold: "framed s (resolveHandByFold s)"
proof (cases "activePlayers s")
  case Nil
  then show ?thesis by (simp add: resolveHandByFold_def framed_endHand)
next
  case (Cons recipient rest)
  then show ?thesis
    unfolding resolveHandByFold_def Let_def
    by (simp add: framed_trans[OF framed_stack framed_trans[OF framed_result framed_endHand]])
qed

lemma framed_awardPot: "framed s (awardPot s p)"
  unfolding awardPot_def Let_def
  by (rule framed_trans[OF framed_stack framed_trans[OF framed_result framed_endHand]])

lemma framed_splitPot: "framed s (splitPot s ps)"
  unfolding splitPot_def Let_def
  by (rule framed_trans[OF framed_stack_fold framed_trans[OF framed_result framed_endHand]])

lemma framed_beginRound: "framed s (beginRound s r)"
  by (simp add: beginRound_def Let_def framed_def list_all2_refl errorsOf_def)

lemma framed_resetRound: "framed s (resetRound s)"
proof -
  have "framed s (forAllPlayers s (\<lambda>p. p\<lparr>betThisRound := 0\<rparr>))"
    by (rule framed_forAllPlayers) (simp add: pstep_def)
  then show ?thesis
    by (simp add: resetRound_def framed_def forAllPlayers_def errorsOf_def)
qed

lemma framed_comboEnroll: "framed s (comboEnroll b s p)"
proof -
  have "framed s (updatePlayer s (pid p) (\<lambda>p. p\<lparr>comboSelection := [], comboRevealed := None\<rparr>))"
    by (rule framed_updatePlayer) (simp add: pstep_def)
  then show ?thesis
    by (simp add: comboEnroll_def Let_def framed_def updatePlayer_def errorsOf_def list_all2_refl)
qed

lemma framed_comboEnroll_fold: "framed s (foldl (comboEnroll b) s ps)"
proof (induction ps arbitrary: s)
  case Nil
  show ?case by simp
next
  case (Cons x xs)
  show ?case using framed_trans[OF framed_comboEnroll Cons.IH] by simp
qed

lemma framed_prepareCombo: "framed s (prepareCombo s b)"
proof -
  have a: "framed s (s\<lparr>phase := Combo, awaitingCombo := {}\<rparr>)"
    by (simp add: framed_def list_all2_refl errorsOf_def)
  have b: "framed t (t\<lparr>comboQueue := q, comboIndex := 0\<rparr>)" for t q
    by (simp add: framed_def list_all2_refl errorsOf_def)
  show ?thesis
    unfolding prepareCombo_def Let_def
    using framed_trans[OF a framed_trans[OF framed_comboEnroll_fold b]] by simp
qed

lemma framed_setNextComboActor: "framed s (snd (setNextComboActor s n))"
  by (simp add: setNextComboActor_def framed_def list_all2_refl errorsOf_def split: option.splits)

lemma framed_acting: "framed s (s\<lparr>actingSeat := a\<rparr>)"
  by (simp add: framed_def list_all2_refl errorsOf_def)

lemma framed_phase: "framed s (s\<lparr>phase := ph, bossRevealedCount := n\<rparr>)"
  by (simp add: framed_def list_all2_refl errorsOf_def)

lemma framed_oxtailDraw: "framed s (oxtailDraw s)"
  by (cases "deck s = []") (simp_all add: oxtailDraw_def Let_def framed_def list_all2_refl errorsOf_def)

lemma smallBlindSeat_resetRound [simp]: "smallBlindSeat (resetRound s) = smallBlindSeat s"
  by (simp add: resetRound_def forAllPlayers_def)

lemma framed_cluster:
  "framed s (startBettingRound s r)"
  "framed s (finishBettingRound s)"
  "framed s (enterComboPhase s b)"
  "framed s (evaluateCombos s)"
  "framed s (startOxtail s)"
proof (induction s r and s and s b and s and s
    rule: startBettingRound_finishBettingRound_enterComboPhase_evaluateCombos_startOxtail.induct)
  case (1 s referenceSeat)
  note br = framed_beginRound[of s referenceSeat]
  show ?case
  proof (cases "actingSeat (beginRound s referenceSeat) = None")
    case True
    from framed_trans[OF br "1.IH"[OF True]] True show ?thesis
      by (simp add: startBettingRound.simps[of s referenceSeat])
  next
    case False
    with br show ?thesis by (auto simp: startBettingRound.simps[of s referenceSeat])
  qed
next
  case (2 s)
  note rs = framed_resetRound[of s]
  show ?case
  proof (cases "length (activePlayers (resetRound s)) \<le> 1")
    case True
    then show ?thesis
      using framed_trans[OF rs framed_resolveHandByFold]
      by (simp add: finishBettingRound.simps[of s])
  next
    case False
    show ?thesis
    proof (cases "phase s")
      case Rush
      then have ph: "phase (resetRound s) = Rush" by simp
      from framed_trans[OF rs framed_trans[OF framed_phase "2.IH"(1)[OF False ph]]]
      show ?thesis using False Rush by (simp add: finishBettingRound.simps[of s])
    next
      case Charge
      then have ph: "phase (resetRound s) = Charge" by simp
      from framed_trans[OF rs framed_trans[OF framed_phase "2.IH"(2)[OF False ph]]]
      show ?thesis using False Charge by (simp add: finishBettingRound.simps[of s])
    next
      case Stomp
      then have ph: "phase (resetRound s) = Stomp" by simp
      from framed_trans[OF rs "2.IH"(3)[OF False ph]]
      show ?thesis using False Stomp by (simp add: finishBettingRound.simps[of s])
    next
      case Oxtail
      then have ph: "phase (resetRound s) = Oxtail" by simp
      from framed_trans[OF rs "2.IH"(4)[OF False ph]]
      show ?thesis using False Oxtail by (simp add: finishBettingRound.simps[of s])
    qed (use False rs in \<open>simp_all add: finishBettingRound.simps[of s]\<close>)
  qed
next
  case (3 s oxtail)
  note pc = framed_prepareCombo[of s oxtail]
  note sn = framed_setNextComboActor[of "prepareCombo s oxtail" 0]
  show ?case
  proof (cases "awaitingCombo (prepareCombo s oxtail) = {}")
    case True
    from framed_trans[OF pc framed_trans[OF framed_acting "3.IH"(1)[OF True]]]
    show ?thesis using True by (simp add: enterComboPhase.simps[of s oxtail])
  next
    case False
    show ?thesis
    proof (cases "fst (setNextComboActor (prepareCombo s oxtail) 0)")
      case True
      from framed_trans[OF pc framed_trans[OF sn framed_broadcast]]
      show ?thesis using False True by (simp add: enterComboPhase.simps[of s oxtail])
    next
      case nf: False
      from framed_trans[OF pc framed_trans[OF sn "3.IH"(2)[OF False nf]]]
      show ?thesis using False nf by (simp add: enterComboPhase.simps[of s oxtail])
    qed
  qed
next
  case (4 s)
  show ?case
    using 4 framed_resolveHandByFold framed_splitPot framed_awardPot
    by (simp add: evaluateCombos.simps[of s])
next
  case (5 s)
  show ?case
  proof (cases "deck s = []")
    case True
    then show ?thesis by (simp add: startOxtail.simps[of s])
  next
    case False
    from framed_trans[OF framed_oxtailDraw "5.IH"[OF False]] False
    show ?thesis by (simp add: startOxtail.simps[of s])
  qed
qed

text \<open>\<open>stackView\<close>: the players' ids with their stacks, in table order.\<close>

definition stackView :: "GameEngine \<Rightarrow> (string \<times> int) list" where
  "stackView s = map (\<lambda>p. (pid p, stack p)) (players s)"

lemma stackView_players:
  "(\<And>p. pid (f p) = pid p \<and> stack (f p) = stack p)
   \<Longrightarrow> stackView (s\<lparr>players := map f (players s)\<rparr>) = stackView s"
  by (simp add: stackView_def)

subsection \<open>Card values and totals\<close>





lemma foldl_add_sum: "foldl (\<lambda>acc c. acc + f c) a cs = (a::int) + sum_list (map f cs)"
  by (induction cs arbitrary: a) simp_all





subsection \<open>Suit matches\<close>













subsection \<open>Sanitized selections and \<open>comboUpdate\<close>\<close>

text \<open>
  The specification's words for a sanitized selection: references to cards not in the
  hand are dropped, the rest is de-duplicated by card id (the first occurrence stays), and
  the mode is low for every card except an Ace explicitly marked high.
\<close>

definition refersToHand :: "EnginePlayer \<Rightarrow> ComboSelection \<Rightarrow> bool" where
  "refersToHand player selection = (findCardInHand player (cardId selection) \<noteq> None)"

fun dedupById :: "ComboSelection list \<Rightarrow> ComboSelection list" where
  "dedupById [] = []"
| "dedupById (x # xs) = x # dedupById (filter (\<lambda>y. cardId y \<noteq> cardId x) xs)"

definition forceMode :: "EnginePlayer \<Rightarrow> ComboSelection \<Rightarrow> ComboSelection" where
  "forceMode player selection =
     \<lparr> cardId = cardId selection,
       mode = (case findCardInHand player (cardId selection) of
                 None \<Rightarrow> Low
               | Some c \<Rightarrow> if rank c = RA \<and> mode selection = High then High else Low) \<rparr>"

definition specSanitize :: "EnginePlayer \<Rightarrow> ComboSelection list \<Rightarrow> ComboSelection list" where
  "specSanitize player selections =
     map (forceMode player) (dedupById (filter (refersToHand player) selections))"

lemma findCardInHand_id: "findCardInHand player i = Some c \<Longrightarrow> cardIdent c = i"
  by (auto simp: findCardInHand_def find_Some_iff)

lemma sanitizeLoop_spec:
  "sanitizeLoop player sels seen
     = map (forceMode player)
         (dedupById (filter (\<lambda>x. refersToHand player x \<and> cardId x \<notin> seen) sels))"
proof (induction sels arbitrary: seen)
  case Nil
  show ?case by simp
next
  case (Cons x rest)
  show ?case
  proof (cases "cardId x \<in> seen")
    case True
    then show ?thesis by (simp add: Cons.IH)
  next
    case False
    show ?thesis
    proof (cases "findCardInHand player (cardId x)")
      case None
      then show ?thesis using False by (simp add: Cons.IH refersToHand_def)
    next
      case (Some c)
      have idc: "cardIdent c = cardId x" by (rule findCardInHand_id[OF Some])
      have "(\<lambda>y. (refersToHand player y \<and> cardId y \<notin> seen) \<and> cardId y \<noteq> cardId x)
              = (\<lambda>y. refersToHand player y \<and> cardId y \<notin> insert (cardId x) seen)"
        by auto
      then show ?thesis
        using False Some idc by (simp add: Cons.IH refersToHand_def forceMode_def)
    qed
  qed
qed

lemma sanitizeSelections_spec: "sanitizeSelections player sels = specSanitize player sels"
  by (simp add: sanitizeSelections_def specSanitize_def sanitizeLoop_spec)

lemma set_dedupById: "set (dedupById xs) \<subseteq> set xs"
proof (induction xs rule: dedupById.induct)
  case 1
  show ?case by simp
next
  case (2 x xs)
  then show ?case by auto
qed

lemma distinct_dedupById: "distinct (map cardId (dedupById xs))"
proof (induction xs rule: dedupById.induct)
  case 1
  show ?case by simp
next
  case (2 x xs)
  have "set (dedupById (filter (\<lambda>y. cardId y \<noteq> cardId x) xs))
          \<subseteq> set (filter (\<lambda>y. cardId y \<noteq> cardId x) xs)"
    by (rule set_dedupById)
  then have "cardId x \<notin> cardId ` set (dedupById (filter (\<lambda>y. cardId y \<noteq> cardId x) xs))"
    by auto
  with 2 show ?case by simp
qed

lemma cardId_forceMode [simp]: "cardId (forceMode player x) = cardId x"
  by (simp add: forceMode_def)

lemma specSanitize_distinct: "distinct (map cardId (specSanitize player sels))"
  by (simp add: specSanitize_def o_def distinct_dedupById)

lemma specSanitize_in_hand:
  "x \<in> set (specSanitize player sels) \<Longrightarrow> findCardInHand player (cardId x) \<noteq> None"
proof -
  assume "x \<in> set (specSanitize player sels)"
  then obtain y where y: "y \<in> set (dedupById (filter (refersToHand player) sels))"
    and x: "x = forceMode player y"
    by (auto simp: specSanitize_def)
  from y set_dedupById have "refersToHand player y" by fastforce
  then show ?thesis by (simp add: x refersToHand_def)
qed

lemma find_map_update_same:
  "find (\<lambda>q. pid q = i) ps = Some p \<Longrightarrow> pid (f p) = i
   \<Longrightarrow> find (\<lambda>q. pid q = i) (map (\<lambda>q. if pid q = i then f q else q) ps) = Some (f p)"
  by (induction ps) (auto split: if_splits)

lemma getPlayer_updatePlayer_same:
  "getPlayer s i = Some p \<Longrightarrow> pid (f p) = i \<Longrightarrow> getPlayer (updatePlayer s i f) i = Some (f p)"
  by (simp add: getPlayer_def updatePlayer_def find_map_update_same)

text \<open>
  Claim C10. \<open>comboUpdate\<close> never emits an error event, whatever the state and the
  caller. For a joined player with a non-empty hand it succeeds in every phase, on every
  turn, seated or not, folded or not (the theorem assumes nothing about them): the state
  changes only in that player's provisional selection, which becomes the sanitized one,
  and in one private event sent to the player. The sanitized selection is the one the
  specification describes, has no card id twice and refers to cards of the hand only.
\<close>

theorem comboUpdate_ungated:
  "errorsOf (comboUpdate s playerId selections) = errorsOf s
   \<and> (getPlayer s playerId = Some player \<and> hand player \<noteq> [] \<longrightarrow>
        comboUpdate s playerId selections
          = (updatePlayer s playerId (\<lambda>p. p\<lparr>comboSelection := specSanitize player selections\<rparr>))
              \<lparr>emitted := emitted s @ [EvPrivate playerId]\<rparr>
        \<and> getPlayer (comboUpdate s playerId selections) playerId
            = Some (player\<lparr>comboSelection := specSanitize player selections\<rparr>))
   \<and> distinct (map cardId (specSanitize player selections))
   \<and> list_all (\<lambda>x. findCardInHand player (cardId x) \<noteq> None) (specSanitize player selections)"
proof -
  have noerr: "errorsOf (comboUpdate s playerId selections) = errorsOf s"
  proof (cases "getPlayer s playerId")
    case None
    then show ?thesis by (simp add: comboUpdate_def)
  next
    case (Some p)
    then have "getPlayer (updatePlayer s playerId (\<lambda>q. q\<lparr>comboSelection := sanitizeSelections p selections\<rparr>)) playerId \<noteq> None"
      using getPlayer_pid[OF Some] by (simp add: getPlayer_updatePlayer_same)
    then show ?thesis
      using Some
      by (auto simp: comboUpdate_def updatePrivate_def errorsOf_def emit_def updatePlayer_def
          isError_def)
  qed
  have upd: "comboUpdate s playerId selections
          = (updatePlayer s playerId (\<lambda>p. p\<lparr>comboSelection := specSanitize player selections\<rparr>))
              \<lparr>emitted := emitted s @ [EvPrivate playerId]\<rparr>
        \<and> getPlayer (comboUpdate s playerId selections) playerId
            = Some (player\<lparr>comboSelection := specSanitize player selections\<rparr>)"
    if gp: "getPlayer s playerId = Some player" and h: "hand player \<noteq> []"
  proof -
    have g2: "getPlayer (updatePlayer s playerId (\<lambda>q. q\<lparr>comboSelection := specSanitize player selections\<rparr>)) playerId
                = Some (player\<lparr>comboSelection := specSanitize player selections\<rparr>)"
      using getPlayer_pid[OF gp] gp by (simp add: getPlayer_updatePlayer_same)
    have eq: "comboUpdate s playerId selections
          = (updatePlayer s playerId (\<lambda>p. p\<lparr>comboSelection := specSanitize player selections\<rparr>))
              \<lparr>emitted := emitted s @ [EvPrivate playerId]\<rparr>"
      using gp h g2
      by (simp add: comboUpdate_def updatePrivate_def sanitizeSelections_spec emit_def
          updatePlayer_def)
    have "getPlayer ((updatePlayer s playerId (\<lambda>p. p\<lparr>comboSelection := specSanitize player selections\<rparr>))
              \<lparr>emitted := emitted s @ [EvPrivate playerId]\<rparr>) playerId
            = Some (player\<lparr>comboSelection := specSanitize player selections\<rparr>)"
      using g2 by (simp add: getPlayer_def)
    with eq show ?thesis by simp
  qed
  have inhand: "list_all (\<lambda>x. findCardInHand player (cardId x) \<noteq> None) (specSanitize player selections)"
    using specSanitize_in_hand by (auto simp: list_all_iff)
  show ?thesis
    using noerr upd inhand specSanitize_distinct by blast
qed

text \<open>A player who has folded and left the seat while another seat is to act in the
  rush: the update goes through. The Ace is kept high, the repeated Ace and the unknown
  card are dropped, the Jack marked high becomes low.\<close>

definition foldedPlayer :: EnginePlayer where
  "foldedPlayer = (newPlayer initialEngine ''p1'' ''Ann'')
     \<lparr>hand := [\<lparr>cardIdent = ''A-hearts-0'', rank = RA, suit = Hearts\<rparr>,
               \<lparr>cardIdent = ''J-hearts-10'', rank = RJ, suit = Hearts\<rparr>],
      hasFolded := True\<rparr>"

definition foldedTable :: GameEngine where
  "foldedTable = initialEngine\<lparr>players := [foldedPlayer], phase := Rush, actingSeat := Some 2\<rparr>"

definition foldedRequest :: "ComboSelection list" where
  "foldedRequest = [\<lparr>cardId = ''A-hearts-0'', mode = High\<rparr>, \<lparr>cardId = ''A-hearts-0'', mode = Low\<rparr>,
                    \<lparr>cardId = ''K-clubs-38'', mode = Low\<rparr>, \<lparr>cardId = ''J-hearts-10'', mode = High\<rparr>]"

theorem comboUpdate_ungated_witness:
  "getPlayer foldedTable ''p1'' = Some foldedPlayer \<and> hand foldedPlayer \<noteq> []
   \<and> phase foldedTable = Rush \<and> hasFolded foldedPlayer \<and> seatIndex foldedPlayer = None
   \<and> getPlayer (comboUpdate foldedTable ''p1'' foldedRequest) ''p1''
       = Some (foldedPlayer\<lparr>comboSelection :=
                 [\<lparr>cardId = ''A-hearts-0'', mode = High\<rparr>, \<lparr>cardId = ''J-hearts-10'', mode = Low\<rparr>]\<rparr>)
   \<and> errorsOf (comboUpdate foldedTable ''p1'' foldedRequest) = []"
proof -
  have a: "getPlayer foldedTable ''p1'' = Some foldedPlayer"
    by (simp add: foldedTable_def foldedPlayer_def getPlayer_def newPlayer_def)
  have b: "hand foldedPlayer \<noteq> []" by (simp add: foldedPlayer_def)
  have c: "specSanitize foldedPlayer foldedRequest
             = [\<lparr>cardId = ''A-hearts-0'', mode = High\<rparr>, \<lparr>cardId = ''J-hearts-10'', mode = Low\<rparr>]"
    by (simp add: specSanitize_def foldedRequest_def foldedPlayer_def refersToHand_def
        findCardInHand_def forceMode_def)
  have d: "errorsOf foldedTable = []"
    by (simp add: errorsOf_def foldedTable_def initialEngine_def)
  have e: "phase foldedTable = Rush \<and> hasFolded foldedPlayer \<and> seatIndex foldedPlayer = None"
    by (simp add: foldedTable_def foldedPlayer_def newPlayer_def)
  from comboUpdate_ungated [of foldedTable "''p1''" foldedRequest foldedPlayer] a b
  have "errorsOf (comboUpdate foldedTable ''p1'' foldedRequest) = errorsOf foldedTable
        \<and> getPlayer (comboUpdate foldedTable ''p1'' foldedRequest) ''p1''
            = Some (foldedPlayer\<lparr>comboSelection := specSanitize foldedPlayer foldedRequest\<rparr>)"
    by blast
  with a b c d e show ?thesis by simp
qed

subsection \<open>Pot and side pot after a commitment\<close>

text \<open>
  The accounting the specification asks for after a commitment. \<open>allInActive\<close> are the
  active players with a zero stack, \<open>specCap\<close> the minimum \<open>totalBet\<close> among them.
\<close>

definition allInActive :: "GameEngine \<Rightarrow> EnginePlayer list" where
  "allInActive s = filter (\<lambda>p. inHand p \<and> \<not> hasFolded p \<and> stack p = 0) (players s)"

definition specCap :: "GameEngine \<Rightarrow> int" where
  "specCap s = Min (totalBet ` set (allInActive s))"

definition potAccounting :: "GameEngine \<Rightarrow> bool" where
  "potAccounting s =
     (pot s + sidePot s = sum_list (map totalBet (players s))
      \<and> (if allInActive s = []
          then sidePot s = 0 \<and> pot s = sum_list (map totalBet (players s))
          else pot s = sum_list (map (\<lambda>p. min (totalBet p) (specCap s)) (players s))
               \<and> sidePot s = sum_list (map (\<lambda>p. max 0 (totalBet p - specCap s)) (players s))))"

lemma totalPot_sum: "totalPot s = sum_list (map totalBet (players s))"
  by (simp add: totalPot_def foldl_add_sum)

lemma minList_Min: "xs \<noteq> [] \<Longrightarrow> minList xs = Min (set xs)"
proof (induction xs rule: minList.induct)
  case 1
  then show ?case by simp
next
  case (2 x)
  show ?case by simp
next
  case (3 x y ys)
  then show ?case by (simp add: min_def)
qed

lemma foldl_sidePotStep:
  "foldl (sidePotStep cap) (a, b) ps
     = (a + sum_list (map (\<lambda>p. min (totalBet p) cap) ps),
        b + sum_list (map (\<lambda>p. max 0 (totalBet p - cap)) ps))"
  by (induction ps arbitrary: a b) (simp_all add: sidePotStep_def Let_def max_def)

lemma min_max_split: "sum_list (map (\<lambda>p. min (totalBet p) c) ps)
    + sum_list (map (\<lambda>p. max 0 (totalBet p - c)) ps) = sum_list (map totalBet ps)"
  by (induction ps) (simp_all add: min_def max_def)

lemma allInActive_filter: "filter (\<lambda>p. stack p = 0) (activePlayers s) = allInActive s"
  by (simp add: allInActive_def activePlayers_def conj_ac)

lemma potAccounting_updateSidePotValues: "potAccounting (updateSidePotValues s)"
proof (cases "allInActive s = []")
  case True
  then show ?thesis
    by (simp add: updateSidePotValues_def allInActive_filter potAccounting_def allInActive_def
        totalPot_sum)
next
  case False
  then have cap: "minList (map totalBet (allInActive s)) = specCap s"
    by (simp add: minList_Min specCap_def)
  have same: "allInActive (s\<lparr>pot := a, sidePot := b\<rparr>) = allInActive s" for a b
    by (simp add: allInActive_def)
  have cap': "specCap (s\<lparr>pot := a, sidePot := b\<rparr>) = specCap s" for a b
    by (simp add: specCap_def same)
  show ?thesis
    using False
    by (simp add: updateSidePotValues_def allInActive_filter Let_def cap foldl_sidePotStep
        potAccounting_def same cap' min_max_split)
qed

text \<open>The accounting reads the pots and, of every player, the total bet, the stack and the
  two activity flags; a later write to other fields keeps it.\<close>

definition potView :: "GameEngine \<Rightarrow> int \<times> int \<times> (int \<times> int \<times> bool \<times> bool) list" where
  "potView s = (pot s, sidePot s, map (\<lambda>p. (totalBet p, stack p, inHand p, hasFolded p)) (players s))"

lemma map_quad_sums:
  assumes "map (\<lambda>p. (totalBet p, stack p, inHand p, hasFolded p)) ps
         = map (\<lambda>p. (totalBet p, stack p, inHand p, hasFolded p)) qs"
  shows "map totalBet ps = map totalBet qs"
    and "map totalBet (filter (\<lambda>p. inHand p \<and> \<not> hasFolded p \<and> stack p = 0) ps)
       = map totalBet (filter (\<lambda>p. inHand p \<and> \<not> hasFolded p \<and> stack p = 0) qs)"
  using assms
proof (induction ps arbitrary: qs)
  case Nil
  { case 1 then show ?case by simp }
  { case 2 then show ?case by simp }
next
  case (Cons p ps)
  { case 1 then show ?case using Cons.IH(1) by (cases qs) auto }
  { case 2 then show ?case using Cons.IH(2) by (cases qs) auto }
qed

lemma potAccounting_potView:
  assumes "potView s' = potView s"
  shows "potAccounting s' = potAccounting s"
proof -
  from assms have q: "map (\<lambda>p. (totalBet p, stack p, inHand p, hasFolded p)) (players s')
         = map (\<lambda>p. (totalBet p, stack p, inHand p, hasFolded p)) (players s)"
    and p: "pot s' = pot s" "sidePot s' = sidePot s"
    by (simp_all add: potView_def)
  note m = map_quad_sums[OF q]
  have tb: "map totalBet (players s') = map totalBet (players s)" by (rule m(1))
  have ai: "map totalBet (allInActive s') = map totalBet (allInActive s)"
    using m(2) by (simp add: allInActive_def)
  have "length (allInActive s') = length (allInActive s)"
    using arg_cong[OF ai, of length] by simp
  then have e: "(allInActive s' = []) = (allInActive s = [])"
    by (metis length_0_conv)
  have "totalBet ` set (allInActive s') = totalBet ` set (allInActive s)"
    using arg_cong[OF ai, of set] by simp
  then have c: "specCap s' = specCap s"
    by (simp add: specCap_def)
  have s1: "sum_list (map (\<lambda>p. f (totalBet p)) (players s'))
          = sum_list (map (\<lambda>p. f (totalBet p)) (players s))" for f :: "int \<Rightarrow> int"
  proof -
    have "map f (map totalBet (players s')) = map f (map totalBet (players s))"
      by (simp only: tb)
    then show ?thesis by (simp add: o_def)
  qed
  show ?thesis
    unfolding potAccounting_def
    using s1[of "\<lambda>x. x"] s1[of "\<lambda>x. min x (specCap s)"] s1[of "\<lambda>x. max 0 (x - specCap s)"]
    by (simp add: p e c)
qed

lemma potAccounting_commitAmount: "potAccounting (commitAmount s playerId amt)"
  by (simp add: commitAmount_def Let_def potAccounting_updateSidePotValues)

lemma potView_updatePlayer:
  "(\<And>p. (totalBet (f p), stack (f p), inHand (f p), hasFolded (f p))
         = (totalBet p, stack p, inHand p, hasFolded p))
   \<Longrightarrow> potView (updatePlayer s i f) = potView s"
  by (simp add: potView_def updatePlayer_def)

lemma potAccounting_postBlind: "potAccounting (postBlind s playerId blind small)"
proof -
  define c where "c = commitAmount (updatePlayer s playerId
                 (\<lambda>p. if small then p\<lparr>isSmallBlind := True\<rparr> else p\<lparr>isBigBlind := True\<rparr>)) playerId blind"
  have "potView (postBlind s playerId blind small) = potView c"
    by (simp add: postBlind_def Let_def c_def potView_def updatePlayer_def)
  from potAccounting_potView[OF this] show ?thesis
    by (simp add: c_def potAccounting_commitAmount)
qed

text \<open>
  Claim C1. After every chip commitment the pot and the side pot add up to the sum of all
  players' \<open>totalBet\<close>; with no zero-stack active player the side pot is 0 and the pot the
  whole sum, otherwise the pot is the sum of \<open>min(totalBet, cap)\<close> and the side pot the
  sum of \<open>max(0, totalBet - cap)\<close>. The commitments are \<open>commitAmount\<close> itself, a blind
  (\<open>postBlind\<close>), a call that has something to pay (\<open>callContribution\<close>) and an
  accepted raise (\<open>applyBet\<close>).
\<close>

theorem pot_accounting_after_commitment:
  "potAccounting (commitAmount s playerId amt)
   \<and> potAccounting (postBlind s playerId blind small)
   \<and> (currentBet s - betThisRound player > 0 \<longrightarrow> potAccounting (callContribution s player))
   \<and> (action msg = Raise \<and> applyBet s player msg = Inr (s', r) \<longrightarrow> potAccounting s')"
proof -
  have call: "potAccounting (callContribution s player)"
    if "currentBet s - betThisRound player > 0"
    using that by (simp add: callContribution_def Let_def potAccounting_commitAmount)
  have raise: "potAccounting s'" if a: "action msg = Raise" and b: "applyBet s player msg = Inr (s', r)"
  proof -
    have "\<exists>needed. potView s' = potView (commitAmount s (pid player) needed)"
      using a b by (auto simp: applyBet_def Let_def potView_def split: if_splits)
    then obtain needed where "potView s' = potView (commitAmount s (pid player) needed)" ..
    from potAccounting_potView[OF this] show ?thesis
      by (simp add: potAccounting_commitAmount)
  qed
  show ?thesis
    using call raise potAccounting_commitAmount[of s playerId amt]
      potAccounting_postBlind[of s playerId blind small] by simp
qed

text \<open>
  A table in the rush where the small blind went all-in with 3 chips under a big blind
  of 10, and the third player is to act: a call of 10 and a raise by 20.
\<close>

definition shortA :: EnginePlayer where
  "shortA = (newPlayer initialEngine ''a'' ''Ann'')
     \<lparr>seatIndex := Some 1, stack := 0, inHand := True, betThisRound := 5, totalBet := 3,
      isSmallBlind := True\<rparr>"

definition shortB :: EnginePlayer where
  "shortB = (newPlayer initialEngine ''b'' ''Bob'')
     \<lparr>seatIndex := Some 2, stack := 490, inHand := True, betThisRound := 10, totalBet := 10,
      isBigBlind := True\<rparr>"

definition shortC :: EnginePlayer where
  "shortC = (newPlayer initialEngine ''c'' ''Cid'')
     \<lparr>seatIndex := Some 3, stack := 500, inHand := True, isDealer := True\<rparr>"

definition shortTable :: GameEngine where
  "shortTable = initialEngine
     \<lparr>players := [shortA, shortB, shortC], seats := [Some ''a'', Some ''b'', Some ''c'', None, None, None],
      handNumber := 1, bossRevealedCount := 3, bossVisible := True, smallBlindSeat := Some 1,
      phase := Rush, dealerSeat := Some 3, currentBet := 10, pot := 6, sidePot := 7,
      actingSeat := Some 3\<rparr>"

definition raise20 :: BetActionMessage where
  "raise20 = \<lparr>action = Raise, amount = Some 20\<rparr>"

definition shortRaised :: GameEngine where
  "shortRaised = (commitAmount shortTable ''c'' 30)\<lparr>currentBet := 30, minimumRaise := 20\<rparr>"

lemmas short_defs = shortTable_def shortA_def shortB_def shortC_def newPlayer_def
  initialEngine_def raise20_def shortRaised_def

lemmas commit_defs = commitAmount_def updatePlayer_def updateSidePotValues_def
  activePlayers_def totalPot_def sidePotStep_def Let_def getPlayer_def
  RAISE_INCREMENT_def STARTING_STACK_def

theorem pot_accounting_after_commitment_witness:
  "potAccounting (commitAmount shortTable ''c'' 10)
   \<and> pot (commitAmount shortTable ''c'' 10) = 9 \<and> sidePot (commitAmount shortTable ''c'' 10) = 14
   \<and> potAccounting (postBlind shortTable ''c'' 10 False)
   \<and> currentBet shortTable - betThisRound shortC > 0
   \<and> potAccounting (callContribution shortTable shortC)
   \<and> action raise20 = Raise \<and> applyBet shortTable shortC raise20 = Inr (shortRaised, True)
   \<and> potAccounting shortRaised \<and> pot shortRaised = 9 \<and> sidePot shortRaised = 34"
proof -
  have a: "pot (commitAmount shortTable ''c'' 10) = 9 \<and> sidePot (commitAmount shortTable ''c'' 10) = 14"
    by (simp add: short_defs commit_defs)
  have b: "currentBet shortTable - betThisRound shortC > 0"
    by (simp add: short_defs)
  have c: "action raise20 = Raise" by (simp add: raise20_def)
  have d: "applyBet shortTable shortC raise20 = Inr (shortRaised, True)"
    by (simp add: applyBet_def short_defs commit_defs)
  have e: "pot shortRaised = 9 \<and> sidePot shortRaised = 34"
    by (simp add: short_defs commit_defs)
  from pot_accounting_after_commitment
         [of shortTable "''c''" 10 10 False shortC raise20 shortRaised True] a b c d e
  show ?thesis by simp
qed

subsection \<open>Raise sizing\<close>

lemma framed_markSeatActed: "framed s (markSeatActed s seatIdx reset)"
  by (cases seatIdx) (simp_all add: markSeatActed_def Let_def framed_def list_all2_refl errorsOf_def)

lemma framed_advanceTurn: "framed s (advanceTurn s)"
proof -
  let ?s1 = "s\<lparr>actingSeat := findNextActingSeat s (actingSeat s) False\<rparr>"
  have a: "framed s ?s1" by (rule framed_acting)
  have b: "framed s (finishBettingRound ?s1)"
    by (rule framed_trans[OF a framed_cluster(2)])
  have c: "framed s (finishBettingRound s)" by (rule framed_cluster(2))
  have "advanceTurn s = s \<or> advanceTurn s = finishBettingRound s
        \<or> advanceTurn s = ?s1 \<or> advanceTurn s = finishBettingRound ?s1"
    by (simp add: advanceTurn_def Let_def)
  with a b c show ?thesis by auto
qed

lemma find_pstep:
  "list_all2 pstep ps qs \<Longrightarrow> find (\<lambda>p. pid p = i) ps = Some p
   \<Longrightarrow> \<exists>q. find (\<lambda>p. pid p = i) qs = Some q \<and> pstep p q"
proof (induction ps qs rule: list_all2_induct)
  case Nil
  then show ?case by simp
next
  case (Cons x xs y ys)
  then show ?case by (auto simp: pstep_def split: if_splits)
qed

lemma framed_getPlayer:
  "framed s s' \<Longrightarrow> getPlayer s i = Some p \<Longrightarrow> \<exists>q. getPlayer s' i = Some q \<and> pstep p q"
  unfolding framed_def getPlayer_def using find_pstep by blast

lemma emitted_updateSidePotValues [simp]: "emitted (updateSidePotValues s) = emitted s"
  by (simp add: updateSidePotValues_def Let_def)

lemma players_updateSidePotValues [simp]: "players (updateSidePotValues s) = players s"
  by (simp add: updateSidePotValues_def Let_def)

lemma emitted_commitAmount [simp]: "emitted (commitAmount s i n) = emitted s"
  by (simp add: commitAmount_def Let_def updatePlayer_def)

definition committed :: "EnginePlayer \<Rightarrow> int \<Rightarrow> EnginePlayer" where
  "committed p n = p\<lparr>stack := stack p - min (stack p) n,
                     betThisRound := betThisRound p + min (stack p) n,
                     totalBet := totalBet p + min (stack p) n\<rparr>"

lemma getPlayer_commitAmount:
  "getPlayer s i = Some p \<Longrightarrow> getPlayer (commitAmount s i n) i = Some (committed p n)"
proof -
  assume gp: "getPlayer s i = Some p"
  have "getPlayer (updatePlayer s i (\<lambda>p. committed p n)) i = Some (committed p n)"
    using gp getPlayer_pid[OF gp] by (simp add: getPlayer_updatePlayer_same committed_def)
  then show ?thesis
    by (simp add: commitAmount_def Let_def getPlayer_def committed_def updatePlayer_def)
qed

text \<open>The largest multiple of the increment that fits into what is left after the call.\<close>

definition affordableRaise :: "GameEngine \<Rightarrow> EnginePlayer \<Rightarrow> int" where
  "affordableRaise s p =
     ((stack p - max 0 (currentBet s - betThisRound p)) div RAISE_INCREMENT) * RAISE_INCREMENT"

definition isActing :: "GameEngine \<Rightarrow> string \<Rightarrow> EnginePlayer \<Rightarrow> bool" where
  "isActing s i p =
     (getPlayer s i = Some p \<and> inHand p \<and> \<not> hasFolded p \<and> seatIndex p \<noteq> None
      \<and> actingSeat s = seatIndex p)"

lemma raise_rejected:
  assumes "isActing s i p" and "action msg = Raise" and "amount msg = Some a"
    and "0 < stack p" and "a < RAISE_INCREMENT \<or> a mod RAISE_INCREMENT \<noteq> 0"
  shows "betAction s i msg = emit s (EvError (Some i) ''Invalid raise amount'')"
  using assms by (auto simp: isActing_def betAction_def applyBet_def Let_def)

lemma raise_accepted_step:
  assumes act: "isActing s i p" and r: "action msg = Raise" and am: "amount msg = Some a"
    and a: "RAISE_INCREMENT \<le> a" "a mod RAISE_INCREMENT = 0"
    and room: "RAISE_INCREMENT \<le> stack p - max 0 (currentBet s - betThisRound p)"
  shows "applyBet s p msg
          = Inr ((commitAmount s i (max 0 (currentBet s - betThisRound p) + min a (affordableRaise s p)))
                   \<lparr>currentBet := betThisRound p + max 0 (currentBet s - betThisRound p)
                                  + min a (affordableRaise s p),
                    minimumRaise := max RAISE_INCREMENT (min a (affordableRaise s p))\<rparr>, True)"
proof -
  let ?cn = "max 0 (currentBet s - betThisRound p)"
  let ?av = "min a (affordableRaise s p)"
  from act have gp: "getPlayer s i = Some p" and pid: "pid p = i"
    using getPlayer_pid by (auto simp: isActing_def)
  have aff: "RAISE_INCREMENT \<le> affordableRaise s p" "affordableRaise s p \<le> stack p - ?cn"
    using room by (simp_all add: affordableRaise_def RAISE_INCREMENT_def)
  have c1: "(stack p \<le> 0) = False" using room by (simp add: RAISE_INCREMENT_def)
  have c2: "(a < RAISE_INCREMENT \<or> a mod RAISE_INCREMENT \<noteq> 0) = False" using a by simp
  have c3: "(stack p \<le> ?cn) = False" using room by (simp add: RAISE_INCREMENT_def)
  have c4: "(?av < RAISE_INCREMENT) = False" using aff(1) a(1) by simp
  have le: "?cn + ?av \<le> stack p" using aff(2) by simp
  have g: "getPlayer (commitAmount s i (?cn + ?av)) i = Some (committed p (?cn + ?av))"
    by (rule getPlayer_commitAmount[OF gp])
  have b: "betThisRound (committed p (?cn + ?av)) = betThisRound p + ?cn + ?av"
    using le by (simp add: committed_def)
  show ?thesis
    unfolding applyBet_def Let_def affordableRaise_def[symmetric]
    by (simp only: r am BetKind.case option.case c1 c2 c3 c4 if_False pid g b)
qed

text \<open>
  Claim C3, as the code has it. The acting player asks for a raise of \<open>a\<close> with a stack
  that exceeds the call amount by at least the increment 10. If \<open>a\<close> is not a positive
  multiple of 10 (25 is not) the request is rejected with an error and the state is
  unchanged. If it is, the raise is accepted: no error is emitted, the effective raise is
  the smaller of \<open>a\<close> and the largest multiple of 10 affordable beyond the call amount,
  the player's total bet grows by the call amount plus the effective raise, and the
  switch of \<open>betAction\<close> sets the current bet and the minimum raise accordingly.
\<close>

theorem raise_sizing:
  assumes act: "isActing s i p" and r: "action msg = Raise" and am: "amount msg = Some a"
    and room: "RAISE_INCREMENT \<le> stack p - max 0 (currentBet s - betThisRound p)"
  shows "(a < RAISE_INCREMENT \<or> a mod RAISE_INCREMENT \<noteq> 0 \<longrightarrow>
            betAction s i msg = emit s (EvError (Some i) ''Invalid raise amount''))
       \<and> (RAISE_INCREMENT \<le> a \<and> a mod RAISE_INCREMENT = 0 \<longrightarrow>
            errorsOf (betAction s i msg) = errorsOf s
            \<and> (\<exists>q. getPlayer (betAction s i msg) i = Some q
                   \<and> totalBet q = totalBet p + max 0 (currentBet s - betThisRound p)
                                   + min a (affordableRaise s p))
            \<and> (\<exists>s1. applyBet s p msg = Inr (s1, True)
                   \<and> currentBet s1 = betThisRound p + max 0 (currentBet s - betThisRound p)
                                     + min a (affordableRaise s p)
                   \<and> minimumRaise s1 = max RAISE_INCREMENT (min a (affordableRaise s p))))
       \<and> affordableRaise s p mod RAISE_INCREMENT = 0
       \<and> affordableRaise s p \<le> stack p - max 0 (currentBet s - betThisRound p)
       \<and> stack p - max 0 (currentBet s - betThisRound p) < affordableRaise s p + RAISE_INCREMENT"
proof -
  let ?cn = "max 0 (currentBet s - betThisRound p)"
  let ?av = "min a (affordableRaise s p)"
  have pos: "0 < stack p" using room by (simp add: RAISE_INCREMENT_def)
  have rej: "betAction s i msg = emit s (EvError (Some i) ''Invalid raise amount'')"
    if "a < RAISE_INCREMENT \<or> a mod RAISE_INCREMENT \<noteq> 0"
    by (rule raise_rejected[OF act r am pos that])
  have acc: "errorsOf (betAction s i msg) = errorsOf s
            \<and> (\<exists>q. getPlayer (betAction s i msg) i = Some q \<and> totalBet q = totalBet p + ?cn + ?av)
            \<and> (\<exists>s1. applyBet s p msg = Inr (s1, True)
                   \<and> currentBet s1 = betThisRound p + ?cn + ?av
                   \<and> minimumRaise s1 = max RAISE_INCREMENT ?av)"
    if a: "RAISE_INCREMENT \<le> a \<and> a mod RAISE_INCREMENT = 0"
  proof -
    define s1 where "s1 = (commitAmount s i (?cn + ?av))
                   \<lparr>currentBet := betThisRound p + ?cn + ?av,
                    minimumRaise := max RAISE_INCREMENT ?av\<rparr>"
    have step: "applyBet s p msg = Inr (s1, True)"
      using raise_accepted_step[OF act r am _ _ room] a by (simp add: s1_def)
    from act have gp: "getPlayer s i = Some p" by (simp add: isActing_def)
    have fin: "betAction s i msg = broadcast (advanceTurn (markSeatActed s1 (seatIndex p) True))"
      using act step by (auto simp: betAction_def isActing_def)
    have fr: "framed s1 (betAction s i msg)"
      unfolding fin
      by (rule framed_trans[OF framed_markSeatActed framed_trans[OF framed_advanceTurn framed_broadcast]])
    have e1: "errorsOf s1 = errorsOf s" by (simp add: s1_def errorsOf_def)
    have "\<And>n. affordableRaise s p \<le> stack p - ?cn"
      by (simp add: affordableRaise_def RAISE_INCREMENT_def)
    then have le: "?cn + ?av \<le> stack p" by auto
    have g1: "getPlayer s1 i = Some (committed p (?cn + ?av))"
      using getPlayer_commitAmount[OF gp, of "?cn + ?av"] by (simp add: s1_def getPlayer_def)
    from framed_getPlayer[OF fr g1] obtain q where
      q: "getPlayer (betAction s i msg) i = Some q" "pstep (committed p (?cn + ?av)) q" by blast
    have "totalBet q = totalBet p + ?cn + ?av"
      using q(2) le by (simp add: pstep_def committed_def)
    with q(1) fr e1 step show ?thesis
      by (auto simp: framed_def s1_def)
  qed
  have m: "affordableRaise s p mod RAISE_INCREMENT = 0
       \<and> affordableRaise s p \<le> stack p - ?cn
       \<and> stack p - ?cn < affordableRaise s p + RAISE_INCREMENT"
    by (simp add: affordableRaise_def RAISE_INCREMENT_def) presburger
  show ?thesis using rej acc m by blast
qed

text \<open>
  A table the engine reaches: Ann and Bob join and sit at seats 1 and 2, and Ann, the
  dealer, starts the first hand (the shuffle keeps the deck in order). Ann has posted the
  small blind of 5, Bob the big blind of 10, and Ann is to act with 495 chips.
\<close>

definition seatedTable :: GameEngine where
  "seatedTable =
     seatTake (seatTake (join (join initialEngine ''a'' ''Ann'') ''b'' ''Bob'') ''a'' 1) ''b'' 2"

definition firstHand :: GameEngine where
  "firstHand = startHand seatedTable ''a'' (\<lambda>i. i)"

definition annFirstHand :: EnginePlayer where
  "annFirstHand = the (getPlayer firstHand ''a'')"

definition raise25 :: BetActionMessage where
  "raise25 = \<lparr>action = Raise, amount = Some 25\<rparr>"

lemma firstHand_reachable: "reachable firstHand"
  unfolding firstHand_def seatedTable_def
  by (intro reachable.intros) (simp_all add: SEAT_COUNT_def)

text \<open>What a raise reads of the table and of the player \<open>i\<close>.\<close>

definition raiseView :: "GameEngine \<Rightarrow> string \<Rightarrow> (bool \<times> int \<times> int \<times> int \<times> int) option" where
  "raiseView s i =
     (case getPlayer s i of
        None \<Rightarrow> None
      | Some p \<Rightarrow> Some (isActing s i p, stack p, currentBet s, betThisRound p, totalBet p))"

lemma firstHand_view: "raiseView firstHand ''a'' = Some (True, 495, 10, 5, 5)"
  by code_simp

lemma firstHand_ann:
  "isActing firstHand ''a'' annFirstHand"
  "RAISE_INCREMENT \<le> stack annFirstHand - max 0 (currentBet firstHand - betThisRound annFirstHand)"
  "stack annFirstHand = 495" "currentBet firstHand = 10" "betThisRound annFirstHand = 5"
  "totalBet annFirstHand = 5"
  using firstHand_view
  by (auto simp: raiseView_def annFirstHand_def RAISE_INCREMENT_def split: option.splits)

theorem raise_of_25_counterexample:
  "isActing firstHand ''a'' annFirstHand
   \<and> stack annFirstHand - max 0 (currentBet firstHand - betThisRound annFirstHand) \<ge> 10
   \<and> betAction firstHand ''a'' raise25 = emit firstHand (EvError (Some ''a'') ''Invalid raise amount'')"
proof -
  have "betAction firstHand ''a'' raise25 = emit firstHand (EvError (Some ''a'') ''Invalid raise amount'')"
    by (rule raise_rejected[OF firstHand_ann(1), of raise25 25])
       (simp_all add: raise25_def firstHand_ann RAISE_INCREMENT_def)
  then show ?thesis using firstHand_ann by simp
qed

theorem raise_sizing_witness:
  "isActing firstHand ''a'' annFirstHand \<and> action raise20 = Raise \<and> amount raise20 = Some 20
   \<and> RAISE_INCREMENT \<le> stack annFirstHand - max 0 (currentBet firstHand - betThisRound annFirstHand)
   \<and> errorsOf (betAction firstHand ''a'' raise20) = errorsOf firstHand
   \<and> (\<exists>q. getPlayer (betAction firstHand ''a'' raise20) ''a'' = Some q \<and> totalBet q = 30)
   \<and> betAction firstHand ''a'' raise25 = emit firstHand (EvError (Some ''a'') ''Invalid raise amount'')"
proof -
  have r: "action raise20 = Raise" "amount raise20 = Some 20"
    and r': "action raise25 = Raise" "amount raise25 = Some 25"
    by (simp_all add: raise20_def raise25_def)
  have aff: "affordableRaise firstHand annFirstHand = 490"
    by (simp add: affordableRaise_def firstHand_ann RAISE_INCREMENT_def)
  from raise_sizing[OF firstHand_ann(1) r firstHand_ann(2)]
       raise_sizing[OF firstHand_ann(1) r' firstHand_ann(2)]
  show ?thesis
    using firstHand_ann r by (simp add: aff RAISE_INCREMENT_def)
qed

subsection \<open>Submitting a combo\<close>













definition callMsg :: BetActionMessage where
  "callMsg = \<lparr>action = Call, amount = None\<rparr>"


























subsection \<open>Ranking, ties and sudden death\<close>

text \<open>
  The ranking in the specification's words: \<open>rankedBefore a b\<close> when \<open>a\<close> beats \<open>b\<close> on
  the three ordered keys (smaller diff, then under beats over, then more suit matches);
  the best-ranked players are those no contender is ranked before.
\<close>

definition rankedBefore :: "Evaluated \<Rightarrow> Evaluated \<Rightarrow> bool" where
  "rankedBefore a b =
     (evDiff a < evDiff b
      \<or> (evDiff a = evDiff b
          \<and> ((evUnder a \<and> \<not> evUnder b)
              \<or> (evUnder a = evUnder b \<and> evSuitMatches b < evSuitMatches a))))"




lemma compare_neg: "(compareEvaluated a b < 0) = rankedBefore a b"
  by (auto simp: compareEvaluated_def rankedBefore_def)


lemma compare_zero: "(compareEvaluated a b = 0) = sameKeys a b"
  by (auto simp: compareEvaluated_def sameKeys_def)




lemma set_insertEvaluated [simp]: "set (insertEvaluated x ys) = insert x (set ys)"
  by (induction ys) auto













text \<open>The end of a hand keeps ids and stacks, and leaves the table waiting.\<close>

lemma rotateDealer_fields:
  "stackView (rotateDealer s) = stackView s" "phase (rotateDealer s) = phase s"
  "lastResult (rotateDealer s) = lastResult s"
  by (auto simp: rotateDealer_def forAllPlayers_def stackView_def split: option.splits)

lemma endHand_fields:
  "stackView (endHand s) = stackView s" "phase (endHand s) = Waiting"
  "lastResult (endHand s) = lastResult s"
proof -
  define s1 where "s1 = s\<lparr>phase := Waiting, bossCards := [], bossRevealedCount := 0,
                 bossVisible := False, actingSeat := None, awaitingCombo := {},
                 comboQueue := [], comboIndex := 0\<rparr>"
  have e: "endHand s = broadcast (forAllPlayers (rotateDealer s1)
                 (\<lambda>p. p\<lparr>inHand := False, hasFolded := False, comboSelection := [],
                         comboRevealed := None, betThisRound := 0\<rparr>))"
    by (simp add: endHand_def s1_def Let_def)
  have a: "stackView s1 = stackView s" "phase s1 = Waiting" "lastResult s1 = lastResult s"
    by (simp_all add: s1_def stackView_def)
  show "stackView (endHand s) = stackView s"
    using rotateDealer_fields(1)[of s1] a(1)
    by (simp add: e broadcast_eq forAllPlayers_def stackView_def o_def)
  show "phase (endHand s) = Waiting"
    using rotateDealer_fields(2)[of s1] a(2) by (simp add: e broadcast_eq forAllPlayers_def)
  show "lastResult (endHand s) = lastResult s"
    using rotateDealer_fields(3)[of s1] a(3) by (simp add: e broadcast_eq forAllPlayers_def)
qed


lemma stackView_result [simp]: "stackView (emit (s\<lparr>lastResult := r\<rparr>) e) = stackView s"
  by (simp add: stackView_def emit_def)


lemma contenders_sublist: "set (contenders s) \<subseteq> set (players s)"
  by (auto simp: contenders_def activePlayers_def)


lemma evPlayer_evaluatePlayer [simp]: "evPlayer (evaluatePlayer s p) = p"
  by (simp add: evaluatePlayer_def Let_def)





definition oxtailTable :: "GameEngine \<Rightarrow> GameEngine" where
  "oxtailTable s = s\<lparr>phase := Oxtail, deck := butlast (deck s),
                     bossCards := bossCards s @ [last (deck s)],
                     bossRevealedCount := bossRevealedCount s + 1\<rparr>"

lemma oxtailDraw_eq: "deck s \<noteq> [] \<Longrightarrow> oxtailDraw s = oxtailTable s"
  by (simp add: oxtailDraw_def oxtailTable_def Let_def)














text \<open>
  Everybody all-in. In the first hand Ann raises by 490 and Bob calls: both stacks are 0,
  the charge and the stomp pass without a turn, and the table is in the combo phase. Ann
  submits the empty selection (\<open>allInLast\<close>); Bob's empty selection then ties with hers.
  \<open>evalInput\<close> is the state \<open>comboSubmit\<close> hands to the evaluation after the last
  waiting player's empty selection has been stored.
\<close>

definition raise490 :: BetActionMessage where
  "raise490 = \<lparr>action = Raise, amount = Some 490\<rparr>"


definition allInLast :: GameEngine where
  "allInLast = comboSubmit (betAction (betAction firstHand ''a'' raise490) ''b'' callMsg) ''a'' []"






lemma allInLast_reachable: "reachable allInLast"
  unfolding allInLast_def by (intro reachable.intros firstHand_reachable)














subsection \<open>Invariants of the reachable states\<close>

text \<open>
  \<open>wfTable\<close>: player ids are unique (they are the keys of a \<open>Map\<close>), and a player in
  the hand has a seat. \<open>pkeep\<close> relates a player before and after a step that neither
  moves the player nor deals the player in.
\<close>

definition wfTable :: "GameEngine \<Rightarrow> bool" where
  "wfTable s =
     (distinct (map pid (players s)) \<and> list_all (\<lambda>p. inHand p \<longrightarrow> seatIndex p \<noteq> None) (players s))"

definition pkeep :: "EnginePlayer \<Rightarrow> EnginePlayer \<Rightarrow> bool" where
  "pkeep p p' = (pid p' = pid p \<and> seatIndex p' = seatIndex p \<and> (inHand p' \<longrightarrow> inHand p))"

definition kept :: "GameEngine \<Rightarrow> GameEngine \<Rightarrow> bool" where
  "kept s s' = list_all2 pkeep (players s) (players s')"

lemma kept_refl [simp]: "kept s s"
  by (simp add: kept_def pkeep_def list_all2_refl)

lemma kept_same: "players s' = players s \<Longrightarrow> kept s s'"
  by (simp add: kept_def pkeep_def list_all2_refl)

lemma kept_trans: "kept s t \<Longrightarrow> kept t u \<Longrightarrow> kept s u"
  unfolding kept_def
  by (rule list_all2_trans[of pkeep pkeep pkeep]) (auto simp: pkeep_def)

lemma framed_kept: "framed s s' \<Longrightarrow> kept s s'"
  unfolding framed_def kept_def
  by (auto elim!: list_all2_mono simp: pstep_def pkeep_def)

lemma kept_map: "(\<And>p. pkeep p (f p)) \<Longrightarrow> players s' = map f (players s) \<Longrightarrow> kept s s'"
  by (simp add: kept_def list_all2_map2 list_all2_refl)

lemma kept_updatePlayer: "(\<And>p. pkeep p (f p)) \<Longrightarrow> kept s (updatePlayer s i f)"
  by (rule kept_map[where f = "\<lambda>p. if pid p = i then f p else p"])
     (simp_all add: updatePlayer_def pkeep_def)

lemma kept_wf:
  assumes "kept s s'" and "wfTable s"
  shows "wfTable s'"
proof -
  from assms(1) have l: "list_all2 pkeep (players s) (players s')" by (simp add: kept_def)
  have "map pid (players s') = map pid (players s)"
    using l by (induction rule: list_all2_induct) (simp_all add: pkeep_def)
  moreover have "list_all (\<lambda>p. inHand p \<longrightarrow> seatIndex p \<noteq> None) (players s')"
    if "list_all (\<lambda>p. inHand p \<longrightarrow> seatIndex p \<noteq> None) (players s)"
    using l that by (induction rule: list_all2_induct) (auto simp: pkeep_def)
  ultimately show ?thesis using assms(2) by (simp add: wfTable_def)
qed

lemma wf_map:
  assumes "wfTable s"
    and "\<And>p. p \<in> set (players s) \<Longrightarrow> pid (f p) = pid p \<and> (inHand (f p) \<longrightarrow> seatIndex (f p) \<noteq> None)"
    and "players s' = map f (players s)"
  shows "wfTable s'"
proof -
  have "map pid (players s') = map pid (players s)"
    using assms(2,3) by simp
  then have "distinct (map pid (players s'))"
    using assms(1) by (simp only: wfTable_def)
  moreover have "list_all (\<lambda>p. inHand p \<longrightarrow> seatIndex p \<noteq> None) (players s')"
    using assms(2,3) by (simp add: list_all_iff)
  ultimately show ?thesis by (simp only: wfTable_def)
qed

lemma getPlayer_unique:
  "distinct (map pid (players s)) \<Longrightarrow> getPlayer s i = Some q \<Longrightarrow> p \<in> set (players s)
   \<Longrightarrow> pid p = i \<Longrightarrow> p = q"
proof -
  assume d: "distinct (map pid (players s))" and g: "getPlayer s i = Some q"
    and p: "p \<in> set (players s)" and i: "pid p = i"
  from getPlayer_pid[OF g] have "pid q = i" "q \<in> set (players s)" by simp_all
  with d p i show "p = q" by (metis distinct_map inj_on_def)
qed

lemma kept_emit [simp]: "kept s (emit s e)"
  by (rule kept_same) (simp add: emit_def)

lemma kept_broadcast [simp]: "kept s (broadcast s)"
  by (rule kept_same) (simp add: broadcast_eq)

lemma kept_updatePrivate [simp]: "kept s (updatePrivate s i)"
  by (rule kept_same) (simp add: updatePrivate_def emit_def split: option.splits)

lemma wf_init: "wfTable initialEngine"
  by (simp add: wfTable_def initialEngine_def)

lemma wf_join: "wfTable s \<Longrightarrow> wfTable (join s i name)"
proof -
  assume wf: "wfTable s"
  let ?s1 = "if getPlayer s i = None then s\<lparr>players := players s @ [newPlayer s i name]\<rparr>
             else updatePlayer s i (\<lambda>p. p\<lparr>username := name\<rparr>)"
  have "wfTable ?s1"
  proof (cases "getPlayer s i = None")
    case True
    then have "i \<notin> pid ` set (players s)"
      using getPlayer_member by fastforce
    then show ?thesis using wf True by (simp add: wfTable_def newPlayer_def)
  next
    case False
    have "kept s (updatePlayer s i (\<lambda>p. p\<lparr>username := name\<rparr>))"
      by (rule kept_updatePlayer) (simp add: pkeep_def)
    from kept_wf[OF this wf] False show ?thesis by auto
  qed
  moreover have "kept ?s1 (join s i name)"
    unfolding join_def Let_def by (rule kept_trans[OF kept_updatePrivate kept_broadcast])
  ultimately show ?thesis by (rule kept_wf[rotated])
qed

lemma wf_cong: "players s' = players s \<Longrightarrow> wfTable s' = wfTable s"
  by (simp add: wfTable_def)

lemma wf_updatePlayer:
  assumes "wfTable s"
    and "\<And>p. p \<in> set (players s) \<Longrightarrow> pid p = i
           \<Longrightarrow> pid (f p) = pid p \<and> (inHand (f p) \<longrightarrow> seatIndex (f p) \<noteq> None)"
  shows "wfTable (updatePlayer s i f)"
proof (rule wf_map[OF assms(1), where f = "\<lambda>p. if pid p = i then f p else p"])
  show "players (updatePlayer s i f) = map (\<lambda>p. if pid p = i then f p else p) (players s)"
    by (simp add: updatePlayer_def)
  fix p assume p: "p \<in> set (players s)"
  show "pid (if pid p = i then f p else p) = pid p \<and>
         (inHand (if pid p = i then f p else p) \<longrightarrow> seatIndex (if pid p = i then f p else p) \<noteq> None)"
  proof (cases "pid p = i")
    case True
    from assms(2)[OF p True] True show ?thesis by simp
  next
    case False
    from assms(1) p False show ?thesis by (simp add: wfTable_def list_all_iff)
  qed
qed

lemma wf_seatTake: "wfTable s \<Longrightarrow> wfTable (seatTake s i seat)"
proof (cases "getPlayer s i")
  case None
  assume "wfTable s"
  then show ?thesis using None kept_wf[OF kept_emit] by (simp add: seatTake_def)
next
  case (Some player)
  assume wf: "wfTable s"
  show ?thesis
  proof (cases "seatSlot s seat \<noteq> None \<and> seatSlot s seat \<noteq> Some i")
    case True
    then show ?thesis using Some wf kept_wf[OF kept_emit] by (simp add: seatTake_def)
  next
    case False
    define s1 where "s1 = (case seatIndex player of None \<Rightarrow> s
                      | Some old \<Rightarrow> s\<lparr>seats := (seats s)[old - 1 := None]\<rparr>)"
    define s2 where "s2 = s1\<lparr>seats := (seats s1)[seat - 1 := Some i]\<rparr>"
    define s3 where "s3 = updatePlayer s2 i
                       (\<lambda>p. p\<lparr>seatIndex := Some seat,
                               entryHand := handNumber s2 + (if isHandActive s2 then 1 else 0)\<rparr>)"
    define s4 where "s4 = (if dealerSeat s3 = None
                      then updatePlayer (s3\<lparr>dealerSeat := Some seat\<rparr>) i (\<lambda>p. p\<lparr>isDealer := True\<rparr>)
                      else s3)"
    have e: "seatTake s i seat = broadcast s4"
      unfolding seatTake_def Let_def s4_def s3_def s2_def s1_def
      using False by (simp only: Some option.case if_False)
    have "players s1 = players s" by (cases "seatIndex player") (simp_all add: s1_def)
    then have w1: "wfTable s1" using wf by (simp add: wf_cong[of s1 s])
    have "players s2 = players s1" by (simp add: s2_def)
    then have w2: "wfTable s2" using w1 by (simp add: wf_cong[of s2 s1])
    have w3: "wfTable s3" unfolding s3_def by (rule wf_updatePlayer[OF w2]) simp
    have "wfTable (s3\<lparr>dealerSeat := Some seat\<rparr>)"
      using w3 by (simp add: wf_cong[of "s3\<lparr>dealerSeat := Some seat\<rparr>" s3])
    then have "wfTable (updatePlayer (s3\<lparr>dealerSeat := Some seat\<rparr>) i (\<lambda>p. p\<lparr>isDealer := True\<rparr>))"
      by (rule kept_wf[OF kept_updatePlayer, rotated]) (simp add: pkeep_def)
    then have "wfTable s4" using w3 by (simp add: s4_def)
    then show ?thesis unfolding e by (rule kept_wf[OF kept_broadcast])
  qed
qed

text \<open>
  \<open>bossInv\<close>: the revealed count in each phase. A hand deals seven cards to at least two
  players after the five boss cards, so at most 33 cards are left; every sudden-death
  round moves one of them to the boss cards.
\<close>

definition bossInv :: "GameEngine \<Rightarrow> bool" where
  "bossInv s =
     (case phase s of
        Waiting \<Rightarrow> bossRevealedCount s = 0
      | Rush \<Rightarrow> bossRevealedCount s = 3 \<and> length (deck s) \<le> 33
      | Charge \<Rightarrow> bossRevealedCount s = 4 \<and> length (deck s) \<le> 33
      | Stomp \<Rightarrow> bossRevealedCount s = 5 \<and> length (deck s) \<le> 33
      | Combo \<Rightarrow> 5 \<le> bossRevealedCount s \<and> bossRevealedCount s + length (deck s) \<le> 38
      | Oxtail \<Rightarrow> 6 \<le> bossRevealedCount s \<and> bossRevealedCount s + length (deck s) \<le> 38
      | Showdown \<Rightarrow> False
      | HandEnd \<Rightarrow> False)"

definition bossView :: "GameEngine \<Rightarrow> Phase \<times> nat \<times> nat" where
  "bossView s = (phase s, bossRevealedCount s, length (deck s))"

lemma bossInv_view: "bossView s' = bossView s \<Longrightarrow> bossInv s' = bossInv s"
  by (simp add: bossView_def bossInv_def cong: Phase.case_cong)

lemma bossView_simps [simp]:
  "bossView (emit s e) = bossView s"
  "bossView (broadcast s) = bossView s"
  "bossView (updatePlayer s i f) = bossView s"
  "bossView (forAllPlayers s f) = bossView s"
  "bossView (updatePrivate s i) = bossView s"
  "bossView (markSeatActed s seatIdx reset) = bossView s"
  "bossView (snd (setNextComboActor s n)) = bossView s"
  "bossView (beginRound s r) = bossView s"
  "bossView (resetRound s) = bossView s"
  "bossView (updateSidePotValues s) = bossView s"
  by (simp_all add: bossView_def emit_def broadcast_eq updatePlayer_def forAllPlayers_def
      updatePrivate_def markSeatActed_def setNextComboActor_def beginRound_def resetRound_def
      updateSidePotValues_def Let_def split: option.splits)

lemma bossView_commitAmount [simp]: "bossView (commitAmount s i n) = bossView s"
  by (simp add: commitAmount_def Let_def) (simp add: bossView_def updatePlayer_def)

lemma bossView_lockCombo [simp]: "bossView (lockCombo s p sel) = bossView s"
  by (simp add: lockCombo_def bossView_def updatePlayer_def)

lemma bossView_rotateDealer [simp]: "bossView (rotateDealer s) = bossView s"
  by (simp add: rotateDealer_def bossView_def forAllPlayers_def split: option.splits)

lemma bossInv_endHand [simp]: "bossInv (endHand s)"
proof -
  have "phase (endHand s) = Waiting" by (rule endHand_fields)
  moreover have "bossRevealedCount (endHand s) = 0"
  proof -
    define s1 where "s1 = s\<lparr>phase := Waiting, bossCards := [], bossRevealedCount := 0,
                 bossVisible := False, actingSeat := None, awaitingCombo := {},
                 comboQueue := [], comboIndex := 0\<rparr>"
    have "bossView (endHand s) = bossView s1"
      by (simp add: endHand_def Let_def s1_def)
    then show ?thesis by (simp add: bossView_def s1_def)
  qed
  ultimately show ?thesis by (simp add: bossInv_def)
qed

lemma bossInv_ends [simp]:
  "bossInv (resolveHandByFold s)" "bossInv (awardPot s p)" "bossInv (splitPot s ps)"
  by (simp_all add: resolveHandByFold_def awardPot_def splitPot_def Let_def split: list.splits)

lemma bossView_comboEnroll_fold: "bossView (foldl (comboEnroll b) s ps) = bossView s"
  by (induction ps arbitrary: s) (simp_all add: comboEnroll_def Let_def bossView_def updatePlayer_def)

lemma bossView_prepareCombo:
  "bossView (prepareCombo s b) = (Combo, bossRevealedCount s, length (deck s))"
proof -
  have "bossView (prepareCombo s b) = bossView (foldl (comboEnroll b) (s\<lparr>phase := Combo, awaitingCombo := {}\<rparr>)
          (activePlayers (s\<lparr>phase := Combo, awaitingCombo := {}\<rparr>)))"
    by (simp add: prepareCombo_def Let_def bossView_def)
  then show ?thesis by (simp add: bossView_comboEnroll_fold) (simp add: bossView_def)
qed

lemma bossInv_cluster:
  "bossInv s \<longrightarrow> bossInv (startBettingRound s r)"
  "bossInv s \<longrightarrow> bossInv (finishBettingRound s)"
  "bossInv s \<and> (phase s = Stomp \<or> phase s = Oxtail) \<longrightarrow> bossInv (enterComboPhase s b)"
  "bossInv s \<and> phase s = Combo \<longrightarrow> bossInv (evaluateCombos s)"
  "bossInv s \<and> phase s = Combo \<longrightarrow> bossInv (startOxtail s)"
proof (induction s r and s and s b and s and s
    rule: startBettingRound_finishBettingRound_enterComboPhase_evaluateCombos_startOxtail.induct)
  case (1 s referenceSeat)
  have v: "bossInv (beginRound s referenceSeat) = bossInv s" by (rule bossInv_view) simp
  show ?case
  proof (cases "actingSeat (beginRound s referenceSeat) = None")
    case True
    from "1.IH"[OF True] v True show ?thesis
      by (simp add: startBettingRound.simps[of s referenceSeat])
  next
    case False
    with v show ?thesis by (auto simp: startBettingRound.simps[of s referenceSeat])
  qed
next
  case (2 s)
  have v: "bossView (resetRound s) = bossView s" by simp
  then have vi: "bossInv (resetRound s) = bossInv s" by (rule bossInv_view)
  have vp: "phase (resetRound s) = phase s" by simp
  have vb: "bossRevealedCount (resetRound s) = bossRevealedCount s"
    and vd: "length (deck (resetRound s)) = length (deck s)"
    using v by (simp_all add: bossView_def)
  show ?case
  proof (cases "length (activePlayers (resetRound s)) \<le> 1")
    case True
    then show ?thesis by (simp add: finishBettingRound.simps[of s])
  next
    case False
    show ?thesis
    proof (cases "phase s")
      case Rush
      then have ph: "phase (resetRound s) = Rush" by simp
      have "bossInv s \<longrightarrow> bossInv ((resetRound s)\<lparr>phase := Charge, bossRevealedCount := 4\<rparr>)"
        using Rush by (simp add: bossInv_def vd)
      with "2.IH"(1)[OF False ph] show ?thesis
        using False Rush by (simp add: finishBettingRound.simps[of s])
    next
      case Charge
      then have ph: "phase (resetRound s) = Charge" by simp
      have "bossInv s \<longrightarrow> bossInv ((resetRound s)\<lparr>phase := Stomp, bossRevealedCount := 5\<rparr>)"
        using Charge by (simp add: bossInv_def vd)
      with "2.IH"(2)[OF False ph] show ?thesis
        using False Charge by (simp add: finishBettingRound.simps[of s])
    next
      case Stomp
      then have ph: "phase (resetRound s) = Stomp" by simp
      from "2.IH"(3)[OF False ph] vi show ?thesis
        using False Stomp by (simp add: finishBettingRound.simps[of s])
    next
      case Oxtail
      then have ph: "phase (resetRound s) = Oxtail" by simp
      from "2.IH"(4)[OF False ph] vi show ?thesis
        using False Oxtail by (simp add: finishBettingRound.simps[of s])
    qed (use False vi in \<open>simp_all add: finishBettingRound.simps[of s]\<close>)
  qed
next
  case (3 s oxtail)
  let ?p = "prepareCombo s oxtail"
  have pv: "bossView ?p = (Combo, bossRevealedCount s, length (deck s))"
    by (rule bossView_prepareCombo)
  have pi: "bossInv ?p \<and> phase ?p = Combo" if "bossInv s" "phase s = Stomp \<or> phase s = Oxtail"
    using that pv by (auto simp: bossInv_def bossView_def)
  have sv: "bossView (snd (setNextComboActor ?p 0)) = bossView ?p" by simp
  have av: "bossView (?p\<lparr>actingSeat := None\<rparr>) = bossView ?p" by (simp add: bossView_def)
  show ?case
  proof (cases "awaitingCombo ?p = {}")
    case True
    from "3.IH"(1)[OF True] pi av show ?thesis
      using True by (auto simp: enterComboPhase.simps[of s oxtail] bossInv_def bossView_def)
  next
    case False
    show ?thesis
    proof (cases "fst (setNextComboActor ?p 0)")
      case True
      have "bossInv (broadcast (snd (setNextComboActor ?p 0))) = bossInv ?p"
        by (rule bossInv_view) simp
      with pi show ?thesis
        using False True by (auto simp: enterComboPhase.simps[of s oxtail])
    next
      case nf: False
      from "3.IH"(2)[OF False nf] pi sv show ?thesis
        using False nf by (auto simp: enterComboPhase.simps[of s oxtail] bossInv_def bossView_def)
    qed
  qed
next
  case (4 s)
  show ?case using 4 by (simp add: evaluateCombos.simps[of s])
next
  case (5 s)
  show ?case
  proof (cases "deck s = []")
    case True
    then show ?thesis by (simp add: startOxtail.simps[of s])
  next
    case False
    have "bossInv (oxtailDraw s)" if "bossInv s" "phase s = Combo"
      using that False by (cases "deck s") (simp_all add: oxtailDraw_eq oxtailTable_def bossInv_def)
    with "5.IH"[OF False] False show ?thesis
      by (simp add: startOxtail.simps[of s])
  qed
qed

definition tableInv :: "GameEngine \<Rightarrow> bool" where
  "tableInv s = (wfTable s \<and> bossInv s)"

lemma inv_keep:
  assumes "kept s s'" and "bossView s' = bossView s" and "tableInv s"
  shows "tableInv s'"
  using assms kept_wf[OF assms(1)] bossInv_view[OF assms(2)] by (simp add: tableInv_def)

lemma inv_emit: "tableInv s \<Longrightarrow> tableInv (emit s e)"
  by (rule inv_keep[OF kept_emit]) simp_all

lemma inv_broadcast: "tableInv s \<Longrightarrow> tableInv (broadcast s)"
  by (rule inv_keep[OF kept_broadcast]) simp_all

lemma inv_init: "tableInv initialEngine"
  by (simp add: tableInv_def wf_init) (simp add: bossInv_def initialEngine_def)

lemma bossView_join: "bossView (join s i name) = bossView s"
proof -
  have "bossView (s\<lparr>players := players s @ [newPlayer s i name]\<rparr>) = bossView s"
    by (simp add: bossView_def)
  then show ?thesis by (simp add: join_def Let_def)
qed

lemma inv_join: "tableInv s \<Longrightarrow> tableInv (join s i name)"
  using wf_join[of s i name] bossInv_view[OF bossView_join, of s i name]
  by (simp add: tableInv_def)

lemma bossView_seatTake: "bossView (seatTake s i seat) = bossView s"
proof (cases "getPlayer s i")
  case None
  then show ?thesis by (simp add: seatTake_def)
next
  case (Some player)
  have a: "bossView (case seatIndex player of None \<Rightarrow> s
                      | Some old \<Rightarrow> s\<lparr>seats := (seats s)[old - 1 := None]\<rparr>) = bossView s"
    by (cases "seatIndex player") (simp_all add: bossView_def)
  have b: "bossView (t\<lparr>seats := x\<rparr>) = bossView t" "bossView (t\<lparr>dealerSeat := y\<rparr>) = bossView t"
    for t x y by (simp_all add: bossView_def)
  show ?thesis
    using Some by (simp add: seatTake_def Let_def a b)
qed

lemma inv_seatTake: "tableInv s \<Longrightarrow> tableInv (seatTake s i seat)"
  using wf_seatTake[of s i seat] bossInv_view[OF bossView_seatTake, of s i seat]
  by (simp add: tableInv_def)

lemma bossInv_advanceTurn: "bossInv s \<Longrightarrow> bossInv (advanceTurn s)"
proof -
  assume b: "bossInv s"
  let ?s1 = "s\<lparr>actingSeat := findNextActingSeat s (actingSeat s) False\<rparr>"
  have "bossView ?s1 = bossView s" by (simp add: bossView_def)
  then have b1: "bossInv ?s1" using b bossInv_view by blast
  have "advanceTurn s = s \<or> advanceTurn s = finishBettingRound s
        \<or> advanceTurn s = ?s1 \<or> advanceTurn s = finishBettingRound ?s1"
    by (simp add: advanceTurn_def Let_def)
  with b b1 bossInv_cluster(2)[of s] bossInv_cluster(2)[of ?s1] show ?thesis by auto
qed

lemma inv_advanceTurn: "tableInv s \<Longrightarrow> tableInv (advanceTurn s)"
  using kept_wf[OF framed_kept[OF framed_advanceTurn], of s] bossInv_advanceTurn[of s]
  by (simp add: tableInv_def)

lemma inv_evaluateCombos: "tableInv s \<Longrightarrow> phase s = Combo \<Longrightarrow> tableInv (evaluateCombos s)"
  using kept_wf[OF framed_kept[OF framed_cluster(4)], of s] bossInv_cluster(4)[of s]
  by (simp add: tableInv_def)

lemma kept_commitAmount: "kept s (commitAmount s i n)"
  by (rule kept_map[where f = "\<lambda>p. if pid p = i then committed p n else p"])
     (simp_all add: commitAmount_def Let_def updatePlayer_def committed_def pkeep_def)

lemma applyBet_keep:
  assumes "applyBet s p msg = Inr (s1, r)"
  shows "kept s s1 \<and> bossView s1 = bossView s"
proof (cases "action msg")
  case Fold
  have "kept s (updatePlayer s (pid p) (\<lambda>p. p\<lparr>hasFolded := True, inHand := False\<rparr>))"
    by (rule kept_updatePlayer) (simp add: pkeep_def)
  then show ?thesis using assms Fold by (auto simp: applyBet_def)
next
  case Check
  then show ?thesis using assms by (auto simp: applyBet_def split: if_splits)
next
  case Call
  then have "s1 = callContribution s p" using assms by (simp add: applyBet_def)
  then show ?thesis
    using kept_commitAmount[of s "pid p" "currentBet s - betThisRound p"]
    by (simp add: callContribution_def Let_def)
next
  case Raise
  then obtain n c m where "s1 = (commitAmount s (pid p) n)\<lparr>currentBet := c, minimumRaise := m\<rparr>"
    using assms by (auto simp: applyBet_def Let_def split: if_splits)
  then show ?thesis
    using kept_commitAmount[of s "pid p" n] bossView_commitAmount[of s "pid p" n]
    by (simp add: kept_def bossView_def)
qed

lemma inv_betAction: "tableInv s \<Longrightarrow> tableInv (betAction s i msg)"
proof -
  assume inv: "tableInv s"
  have "(\<exists>e. betAction s i msg = emit s e)
        \<or> (\<exists>p s1 r. applyBet s p msg = Inr (s1, r)
              \<and> betAction s i msg = broadcast (advanceTurn (markSeatActed s1 (seatIndex p) r)))"
  proof (cases "getPlayer s i")
    case None
    then show ?thesis by (auto simp: betAction_def)
  next
    case (Some player)
    show ?thesis
    proof (cases "applyBet s player msg")
      case (Inl reason)
      then show ?thesis using Some by (auto simp: betAction_def)
    next
      case (Inr res)
      obtain s1 r where res: "res = (s1, r)" by (cases res)
      have "betAction s i msg = emit s (EvError (Some i) ''Invalid action'')
            \<or> betAction s i msg = emit s (EvError (Some i) ''Not your turn'')
            \<or> betAction s i msg = emit s (EvError (Some i) ''Invalid seat'')
            \<or> betAction s i msg = broadcast (advanceTurn (markSeatActed s1 (seatIndex player) r))"
        using Some Inr res by (simp add: betAction_def)
      then show ?thesis using Inr res by blast
    qed
  qed
  then show ?thesis
  proof
    assume "\<exists>e. betAction s i msg = emit s e"
    then show ?thesis using inv_emit[OF inv] by auto
  next
    assume "\<exists>p s1 r. applyBet s p msg = Inr (s1, r)
              \<and> betAction s i msg = broadcast (advanceTurn (markSeatActed s1 (seatIndex p) r))"
    then obtain p s1 r where a: "applyBet s p msg = Inr (s1, r)"
      and b: "betAction s i msg = broadcast (advanceTurn (markSeatActed s1 (seatIndex p) r))"
      by blast
    from applyBet_keep[OF a] have "tableInv s1" using inv inv_keep by blast
    moreover have "kept s1 (markSeatActed s1 (seatIndex p) r)"
      by (rule framed_kept[OF framed_markSeatActed])
    ultimately have "tableInv (markSeatActed s1 (seatIndex p) r)"
      by (rule inv_keep[rotated 2]) simp
    then show ?thesis unfolding b by (intro inv_broadcast inv_advanceTurn)
  qed
qed

lemma inv_comboUpdate: "tableInv s \<Longrightarrow> tableInv (comboUpdate s i sel)"
proof -
  assume inv: "tableInv s"
  have k: "kept s (updatePlayer s i (\<lambda>p. p\<lparr>comboSelection := x\<rparr>))" for x
    by (rule kept_updatePlayer) (simp add: pkeep_def)
  have "tableInv (updatePrivate (updatePlayer s i (\<lambda>p. p\<lparr>comboSelection := x\<rparr>)) i)" for x
    by (rule inv_keep[OF kept_trans[OF k kept_updatePrivate] _ inv]) simp
  then show ?thesis using inv by (simp add: comboUpdate_def split: option.splits)
qed

lemma kept_lockCombo: "kept s (lockCombo s p sel)"
proof -
  have "kept s (updatePlayer s (pid p) (\<lambda>q. q\<lparr>comboSelection := sel, comboRevealed := x\<rparr>))" for x
    by (rule kept_updatePlayer) (simp add: pkeep_def)
  then show ?thesis by (simp add: lockCombo_def kept_def)
qed

lemma inv_after_lock:
  assumes inv: "tableInv s1" and ph: "phase s1 = Combo"
  shows "tableInv (if awaitingCombo s1 = {} then evaluateCombos (s1\<lparr>actingSeat := None\<rparr>)
                    else if \<not> fst (setNextComboActor s1 n)
                    then evaluateCombos (snd (setNextComboActor s1 n))
                    else broadcast (snd (setNextComboActor s1 n)))"
proof -
  have a: "tableInv (s1\<lparr>actingSeat := None\<rparr>)"
    by (rule inv_keep[OF kept_same _ inv]) (simp_all add: bossView_def)
  have b: "tableInv (snd (setNextComboActor s1 n))"
    by (rule inv_keep[OF framed_kept[OF framed_setNextComboActor] _ inv]) simp
  have pb: "phase (snd (setNextComboActor s1 n)) = Combo"
    using ph by (simp add: setNextComboActor_def split: option.splits)
  show ?thesis
    using inv_evaluateCombos[OF a] inv_evaluateCombos[OF b pb] inv_broadcast[OF b] ph
    by simp
qed

lemma inv_comboSubmit: "tableInv s \<Longrightarrow> tableInv (comboSubmit s i sel)"
proof -
  assume inv: "tableInv s"
  have "comboSubmit s i sel = s \<or> (\<exists>e. comboSubmit s i sel = emit s e)
        \<or> (phase s = Combo \<and> (\<exists>p x.
              comboSubmit s i sel
                = (if awaitingCombo (lockCombo s p x) = {}
                   then evaluateCombos ((lockCombo s p x)\<lparr>actingSeat := None\<rparr>)
                   else if \<not> fst (setNextComboActor (lockCombo s p x) (comboIndex (lockCombo s p x) + 1))
                   then evaluateCombos (snd (setNextComboActor (lockCombo s p x) (comboIndex (lockCombo s p x) + 1)))
                   else broadcast (snd (setNextComboActor (lockCombo s p x) (comboIndex (lockCombo s p x) + 1))))))"
    by (auto simp: comboSubmit_def Let_def split: option.splits)
  then consider "comboSubmit s i sel = s" | e where "comboSubmit s i sel = emit s e"
    | p x where "phase s = Combo"
        "comboSubmit s i sel
                = (if awaitingCombo (lockCombo s p x) = {}
                   then evaluateCombos ((lockCombo s p x)\<lparr>actingSeat := None\<rparr>)
                   else if \<not> fst (setNextComboActor (lockCombo s p x) (comboIndex (lockCombo s p x) + 1))
                   then evaluateCombos (snd (setNextComboActor (lockCombo s p x) (comboIndex (lockCombo s p x) + 1)))
                   else broadcast (snd (setNextComboActor (lockCombo s p x) (comboIndex (lockCombo s p x) + 1))))"
    by blast
  then show ?thesis
  proof cases
    case 1
    then show ?thesis using inv by simp
  next
    case 2
    then show ?thesis using inv_emit[OF inv] by simp
  next
    case 3
    have lk: "tableInv (lockCombo s p x)"
      by (rule inv_keep[OF kept_lockCombo _ inv]) simp
    have lp: "phase (lockCombo s p x) = Combo"
      using 3(1) by (simp add: lockCombo_def updatePlayer_def)
    show ?thesis unfolding 3(2) by (rule inv_after_lock[OF lk lp])
  qed
qed

lemma inv_restartTable: "tableInv (restartTable s)" if "wfTable s"
proof -
  define f :: "EnginePlayer \<Rightarrow> EnginePlayer" where
    "f = (\<lambda>p. p\<lparr>stack := STARTING_STACK, seatIndex := None, entryHand := 0, hand := [],
                   inHand := False, hasFolded := False, betThisRound := 0, totalBet := 0,
                   comboSelection := [], comboRevealed := None, isDealer := False,
                   isSmallBlind := False, isBigBlind := False\<rparr>)"
  have p: "players (restartTable s) = map f (players s)"
    by (simp add: restartTable_def broadcast_eq forAllPlayers_def f_def)
  have "wfTable (restartTable s)"
    by (rule wf_map[OF that _ p]) (simp add: f_def)
  moreover have "bossView (restartTable s) = (Waiting, 0, 0)"
    by (simp add: restartTable_def forAllPlayers_def) (simp add: bossView_def)
  ultimately show ?thesis by (simp add: tableInv_def bossInv_def bossView_def)
qed

lemma inv_seatLeave: "tableInv s \<Longrightarrow> tableInv (seatLeave s i)"
proof (cases "getPlayer s i")
  case None
  assume "tableInv s"
  then show ?thesis using None by (simp add: seatLeave_def)
next
  case (Some player)
  assume inv: "tableInv s"
  then have wf: "wfTable s" by (simp add: tableInv_def)
  define s1 where "s1 = (case seatIndex player of
                      None \<Rightarrow> s
                    | Some seat \<Rightarrow>
                        let s0 = (if dealerSeat s = Some seat \<and> phase s = Waiting
                                  then s\<lparr>dealerSeat := findNextDealerSeat s seat\<rparr> else s)
                        in s0\<lparr>seats := (seats s0)[seat - 1 := None]\<rparr>)"
  define s2 where "s2 = (if inHand player
                    then updatePlayer s1 i (\<lambda>p. p\<lparr>hasFolded := True, inHand := False\<rparr>)
                    else s1)"
  define s3 where "s3 = updatePlayer s2 i (\<lambda>p. p\<lparr>seatIndex := None\<rparr>)"
  define s4 where "s4 = s3\<lparr>awaitingCombo := awaitingCombo s3 - {i}\<rparr>"
  have e: "seatLeave s i =
      (if phase s3 = Combo \<and> i \<in> awaitingCombo s3
       then (if seatIndex player = actingSeat s4
             then (if awaitingCombo s4 = {}
                   then broadcast (evaluateCombos (s4\<lparr>actingSeat := None\<rparr>))
                   else if \<not> fst (setNextComboActor s4 (comboIndex s4 + 1))
                   then broadcast (evaluateCombos (snd (setNextComboActor s4 (comboIndex s4 + 1))))
                   else broadcast (snd (setNextComboActor s4 (comboIndex s4 + 1))))
             else broadcast s4)
       else if seatIndex player \<noteq> None \<and> seatIndex player = actingSeat s3
       then broadcast (advanceTurn s3)
       else broadcast s3)"
    unfolding seatLeave_def Let_def s4_def s3_def s2_def s1_def Some option.case
    by (rule refl)
  have p1: "players s1 = players s" and v1: "bossView s1 = bossView s"
    by (cases "seatIndex player"; simp add: s1_def Let_def bossView_def)+
  have w1: "wfTable s1" using wf by (simp add: wf_cong[OF p1])
  have w2: "wfTable s2"
  proof (cases "inHand player")
    case True
    have "kept s1 (updatePlayer s1 i (\<lambda>p. p\<lparr>hasFolded := True, inHand := False\<rparr>))"
      by (rule kept_updatePlayer) (simp add: pkeep_def)
    from kept_wf[OF this w1] True show ?thesis by (simp add: s2_def)
  next
    case False
    with w1 show ?thesis by (simp add: s2_def)
  qed
  have out: "\<not> inHand p" if "p \<in> set (players s2)" "pid p = i" for p
  proof (cases "inHand player")
    case True
    then have "players s2 = map (\<lambda>p. if pid p = i then p\<lparr>hasFolded := True, inHand := False\<rparr> else p) (players s1)"
      by (simp add: s2_def updatePlayer_def)
    with that(1) have "p \<in> (\<lambda>q. if pid q = i then q\<lparr>hasFolded := True, inHand := False\<rparr> else q) ` set (players s1)"
      by simp
    then obtain q where "p = (if pid q = i then q\<lparr>hasFolded := True, inHand := False\<rparr> else q)"
      by (rule imageE)
    with that(2) show ?thesis by (cases "pid q = i") simp_all
  next
    case False
    then have "players s2 = players s" by (simp add: s2_def p1)
    with that have "p \<in> set (players s)" by simp
    have d: "distinct (map pid (players s))" using wf by (simp only: wfTable_def)
    have "p = player" by (rule getPlayer_unique[OF d Some \<open>p \<in> set (players s)\<close> that(2)])
    with False show ?thesis by simp
  qed
  have w3: "wfTable s3"
    unfolding s3_def by (rule wf_updatePlayer[OF w2]) (simp add: out)
  have v3: "bossView s3 = bossView s"
    using v1 by (simp add: s3_def s2_def)
  have i3: "tableInv s3" using w3 bossInv_view[OF v3] inv by (simp add: tableInv_def)
  have i4: "tableInv s4"
    by (rule inv_keep[OF kept_same _ i3]) (simp_all add: s4_def bossView_def)
  have p4: "phase s4 = phase s3" by (simp add: s4_def)
  have fin: "tableInv (if awaitingCombo s4 = {}
                   then broadcast (evaluateCombos (s4\<lparr>actingSeat := None\<rparr>))
                   else if \<not> fst (setNextComboActor s4 (comboIndex s4 + 1))
                   then broadcast (evaluateCombos (snd (setNextComboActor s4 (comboIndex s4 + 1))))
                   else broadcast (snd (setNextComboActor s4 (comboIndex s4 + 1))))"
    if ph: "phase s3 = Combo"
  proof -
    have ph4: "phase s4 = Combo" using ph by (simp add: p4)
    have a: "tableInv (s4\<lparr>actingSeat := None\<rparr>)"
      by (rule inv_keep[OF kept_same _ i4]) (simp_all add: bossView_def)
    have b: "tableInv (snd (setNextComboActor s4 (comboIndex s4 + 1)))"
      by (rule inv_keep[OF framed_kept[OF framed_setNextComboActor] _ i4]) simp
    have pb: "phase (snd (setNextComboActor s4 (comboIndex s4 + 1))) = Combo"
      using ph4 by (simp add: setNextComboActor_def split: option.splits)
    have pa: "phase (s4\<lparr>actingSeat := None\<rparr>) = Combo" using ph4 by simp
    note r1 = inv_broadcast[OF inv_evaluateCombos[OF a pa]]
    note r2 = inv_broadcast[OF inv_evaluateCombos[OF b pb]]
    note r3 = inv_broadcast[OF b]
    show ?thesis
    proof (cases "awaitingCombo s4 = {}")
      case True
      then show ?thesis using r1 by simp
    next
      case False
      show ?thesis
      proof (cases "fst (setNextComboActor s4 (comboIndex s4 + 1))")
        case True
        with False show ?thesis using r3 by simp
      next
        case f: False
        with False show ?thesis using r2 by simp
      qed
    qed
  qed
  show ?thesis
  proof (cases "phase s3 = Combo \<and> i \<in> awaitingCombo s3")
    case True
    then have ph: "phase s3 = Combo" by simp
    show ?thesis
    proof (cases "seatIndex player = actingSeat s4")
      case t: True
      show ?thesis unfolding e by (simp only: if_P[OF True] if_P[OF t]) (rule fin[OF ph])
    next
      case f: False
      show ?thesis unfolding e
        by (simp only: if_P[OF True] if_not_P[OF f]) (rule inv_broadcast[OF i4])
    qed
  next
    case False
    show ?thesis
    proof (cases "seatIndex player \<noteq> None \<and> seatIndex player = actingSeat s3")
      case t: True
      show ?thesis unfolding e
        by (simp only: if_not_P[OF False] if_P[OF t]) (rule inv_broadcast[OF inv_advanceTurn[OF i3]])
    next
      case f: False
      show ?thesis unfolding e
        by (simp only: if_not_P[OF False] if_not_P[OF f]) (rule inv_broadcast[OF i3])
    qed
  qed
qed

text \<open>Dealing: the deck after a draw, and the hands of at least two players.\<close>

lemma length_drawLoop: "length (snd (drawLoop n d)) = length d - n"
  by (induction n arbitrary: d) (simp_all add: Let_def)

lemma length_shuffleLoop: "length (shuffleLoop rnd n d) = length d"
  by (induction n arbitrary: d) (simp_all add: Let_def)

lemma length_buildDeck: "length (buildDeck rnd) = 52"
  by (simp add: buildDeck_def length_shuffleLoop)
     (simp add: orderedDeck_def SUITS_def RANKS_def)

lemma kept_dealOne: "kept s (dealOne s p)"
proof -
  have "kept (s\<lparr>deck := d\<rparr>) (updatePlayer (s\<lparr>deck := d\<rparr>) (pid p) (\<lambda>q. q\<lparr>hand := h\<rparr>))" for d h
    by (rule kept_updatePlayer) (simp add: pkeep_def)
  then show ?thesis by (simp add: dealOne_def Let_def kept_def)
qed

lemma dealHands_fields:
  "kept s (dealHands s ps)"
  "length (deck (dealHands s ps)) = length (deck s) - 7 * length ps"
  "phase (dealHands s ps) = phase s"
  "bossRevealedCount (dealHands s ps) = bossRevealedCount s"
proof -
  have "kept s (foldl dealOne s ps)
        \<and> length (deck (foldl dealOne s ps)) = length (deck s) - 7 * length ps
        \<and> phase (foldl dealOne s ps) = phase s
        \<and> bossRevealedCount (foldl dealOne s ps) = bossRevealedCount s"
  proof (induction ps arbitrary: s)
    case Nil
    show ?case by simp
  next
    case (Cons p ps)
    have d: "length (deck (dealOne s p)) = length (deck s) - 7"
      "phase (dealOne s p) = phase s" "bossRevealedCount (dealOne s p) = bossRevealedCount s"
      by (simp_all add: dealOne_def Let_def updatePlayer_def length_drawLoop)
    from Cons.IH[of "dealOne s p"] kept_trans[OF kept_dealOne, of s p] d
    show ?case by simp
  qed
  then show "kept s (dealHands s ps)"
    "length (deck (dealHands s ps)) = length (deck s) - 7 * length ps"
    "phase (dealHands s ps) = phase s"
    "bossRevealedCount (dealHands s ps) = bossRevealedCount s"
    by (simp_all add: dealHands_def)
qed

lemma postBlind_keep: "kept s (postBlind s i b small) \<and> bossView (postBlind s i b small) = bossView s"
proof -
  let ?s1 = "updatePlayer s i (\<lambda>p. if small then p\<lparr>isSmallBlind := True\<rparr> else p\<lparr>isBigBlind := True\<rparr>)"
  let ?s2 = "commitAmount ?s1 i b"
  let ?s3 = "updatePlayer ?s2 i (\<lambda>p. p\<lparr>betThisRound := b\<rparr>)"
  have a: "kept s ?s1" by (rule kept_updatePlayer) (simp add: pkeep_def)
  have b: "kept ?s1 ?s2" by (rule kept_commitAmount)
  have c: "kept ?s2 ?s3" by (rule kept_updatePlayer) (simp add: pkeep_def)
  have "kept s ?s3" by (rule kept_trans[OF a kept_trans[OF b c]])
  moreover have "bossView ?s3 = bossView s" by simp
  ultimately show ?thesis by (simp add: postBlind_def Let_def kept_def bossView_def)
qed

lemma dealer_fold_keep:
  "kept s (foldl (\<lambda>st player. updatePlayer st (pid player)
                        (\<lambda>p. p\<lparr>isDealer := (seatIndex p = dealerSeat st)\<rparr>)) s ps)
   \<and> bossView (foldl (\<lambda>st player. updatePlayer st (pid player)
                        (\<lambda>p. p\<lparr>isDealer := (seatIndex p = dealerSeat st)\<rparr>)) s ps) = bossView s"
proof (induction ps arbitrary: s)
  case Nil
  show ?case by simp
next
  case (Cons x xs)
  let ?s1 = "updatePlayer s (pid x) (\<lambda>p. p\<lparr>isDealer := (seatIndex p = dealerSeat s)\<rparr>)"
  have "kept s ?s1" by (rule kept_updatePlayer) (simp add: pkeep_def)
  with Cons.IH[of ?s1] show ?case by (auto intro: kept_trans)
qed

lemma assignBlinds_keep:
  "kept s (assignBlinds s ps) \<and> bossView (assignBlinds s ps) = bossView s"
proof -
  define s1 where "s1 = (if dealerSeat s = None
                then (case ps of
                        [] \<Rightarrow> s
                      | first # _ \<Rightarrow>
                          updatePlayer (s\<lparr>dealerSeat := seatIndex first\<rparr>) (pid first)
                            (\<lambda>p. p\<lparr>isDealer := True\<rparr>))
                else s)"
  define s2 where "s2 = foldl (\<lambda>st player. updatePlayer st (pid player)
                        (\<lambda>p. p\<lparr>isDealer := (seatIndex p = dealerSeat st)\<rparr>)) s1 ps"
  define sb where "sb = (if length ps = 2 then dealerSeat s2 else getNextOccupiedSeat s2 (dealerSeat s2))"
  define s3 where "s3 = s2\<lparr>smallBlindSeat := sb\<rparr>"
  define s4 where "s4 = (case getPlayerBySeat s3 sb of None \<Rightarrow> s3
                          | Some p \<Rightarrow> postBlind s3 (pid p) SMALL_BLIND True)"
  have e: "assignBlinds s ps = (case getPlayerBySeat s3 (getNextOccupiedSeat s2 sb) of
              None \<Rightarrow> s4 | Some bb \<Rightarrow> postBlind s4 (pid bb) BIG_BLIND False)"
    unfolding assignBlinds_def Let_def s4_def s3_def sb_def s2_def s1_def by (rule refl)
  have k1: "kept s s1 \<and> bossView s1 = bossView s"
  proof -
    have "kept (s\<lparr>dealerSeat := d\<rparr>) (updatePlayer (s\<lparr>dealerSeat := d\<rparr>) j (\<lambda>p. p\<lparr>isDealer := True\<rparr>))" for d j
      by (rule kept_updatePlayer) (simp add: pkeep_def)
    then have "kept s (updatePlayer (s\<lparr>dealerSeat := d\<rparr>) j (\<lambda>p. p\<lparr>isDealer := True\<rparr>))" for d j
      by (simp add: kept_def)
    then show ?thesis by (simp add: s1_def bossView_def updatePlayer_def split: list.splits)
  qed
  have k2: "kept s1 s2 \<and> bossView s2 = bossView s1"
    unfolding s2_def by (rule dealer_fold_keep)
  have k3: "kept s2 s3 \<and> bossView s3 = bossView s2"
    by (simp add: s3_def kept_def bossView_def pkeep_def list_all2_refl)
  have k4: "kept s3 s4 \<and> bossView s4 = bossView s3"
    using postBlind_keep by (simp add: s4_def split: option.splits)
  have k5: "kept s4 (assignBlinds s ps) \<and> bossView (assignBlinds s ps) = bossView s4"
    unfolding e using postBlind_keep by (simp split: option.splits)
  show ?thesis
    using k1 k2 k3 k4 k5 by (metis kept_trans)
qed

text \<open>Starting a hand: who is dealt in, and what is left of the deck.\<close>

lemma eligibleAt_Some:
  "eligibleAt s slot = Some p
   \<Longrightarrow> p \<in> set (players s) \<and> slot = Some (pid p) \<and> getPlayer s (pid p) = Some p
       \<and> seatIndex p \<noteq> None \<and> entryHand p \<le> handNumber s"
  using getPlayer_pid[of s _ p]
  by (auto simp: eligibleAt_def split: option.splits if_splits)

lemma eligible_seated:
  assumes "p \<in> set (getEligibleSeatedPlayers s)"
  shows "p \<in> set (players s)" "getPlayer s (pid p) = Some p" "seatIndex p \<noteq> None"
    "entryHand p \<le> handNumber s"
proof -
  from assms obtain slot where "eligibleAt s slot = Some p"
    by (auto simp: getEligibleSeatedPlayers_def map_filter_def)
  from eligibleAt_Some[OF this]
  show "p \<in> set (players s)" "getPlayer s (pid p) = Some p" "seatIndex p \<noteq> None"
    "entryHand p \<le> handNumber s"
    by simp_all
qed

lemma inHand_fold_players:
  "players (foldl (\<lambda>st player. updatePlayer st (pid player) (\<lambda>p. p\<lparr>inHand := True\<rparr>)) s ps)
     = map (\<lambda>p. if pid p \<in> pid ` set ps then p\<lparr>inHand := True\<rparr> else p) (players s)"
proof (induction ps arbitrary: s)
  case Nil
  show ?case by simp
next
  case (Cons x xs)
  let ?s1 = "updatePlayer s (pid x) (\<lambda>p. p\<lparr>inHand := True\<rparr>)"
  have "players (foldl (\<lambda>st player. updatePlayer st (pid player) (\<lambda>p. p\<lparr>inHand := True\<rparr>)) s (x # xs))
          = map (\<lambda>p. if pid p \<in> pid ` set xs then p\<lparr>inHand := True\<rparr> else p) (players ?s1)"
    using Cons.IH[of ?s1] by simp
  also have "\<dots> = map (\<lambda>p. if pid p \<in> pid ` set (x # xs) then p\<lparr>inHand := True\<rparr> else p) (players s)"
    by (auto simp: updatePlayer_def)
  finally show ?case .
qed

definition cleared :: "EnginePlayer \<Rightarrow> EnginePlayer" where
  "cleared p = p\<lparr>inHand := False, hasFolded := False, betThisRound := 0, totalBet := 0,
                 comboSelection := [], comboRevealed := None, isSmallBlind := False,
                 isBigBlind := False, hand := []\<rparr>"

lemma players_resetPlayersForHand:
  "players (resetPlayersForHand s ps)
     = map (\<lambda>p. if pid p \<in> pid ` set ps then (cleared p)\<lparr>inHand := True\<rparr> else cleared p) (players s)"
proof -
  have "players (resetPlayersForHand s ps)
          = map (\<lambda>p. if pid p \<in> pid ` set ps then p\<lparr>inHand := True\<rparr> else p)
              (players (forAllPlayers s cleared))"
    unfolding resetPlayersForHand_def Let_def cleared_def[abs_def, symmetric]
    by (rule inHand_fold_players)
  also have "\<dots> = map (\<lambda>p. if pid p \<in> pid ` set ps then (cleared p)\<lparr>inHand := True\<rparr> else cleared p) (players s)"
    by (simp add: forAllPlayers_def cleared_def o_def)
  finally show ?thesis .
qed

lemma bossView_resetPlayersForHand: "bossView (resetPlayersForHand s ps) = bossView s"
proof -
  have "bossView (foldl (\<lambda>st player. updatePlayer st (pid player) f) t ps) = bossView t" for t f
    by (induction ps arbitrary: t) simp_all
  then show ?thesis by (simp add: resetPlayersForHand_def Let_def)
qed

lemma wf_resetPlayersForHand:
  assumes wf: "wfTable s" and ps: "ps = getEligibleSeatedPlayers s"
  shows "wfTable (resetPlayersForHand (s\<lparr>handNumber := n\<rparr>) ps)"
proof (rule wf_map[OF wf, where f = "\<lambda>p. if pid p \<in> pid ` set ps
                                         then (cleared p)\<lparr>inHand := True\<rparr> else cleared p"])
  show "players (resetPlayersForHand (s\<lparr>handNumber := n\<rparr>) ps)
          = map (\<lambda>p. if pid p \<in> pid ` set ps then (cleared p)\<lparr>inHand := True\<rparr> else cleared p)
              (players s)"
    by (simp add: players_resetPlayersForHand)
  fix p assume p: "p \<in> set (players s)"
  have d: "distinct (map pid (players s))" using wf by (simp only: wfTable_def)
  show "pid (if pid p \<in> pid ` set ps then (cleared p)\<lparr>inHand := True\<rparr> else cleared p) = pid p
        \<and> (inHand (if pid p \<in> pid ` set ps then (cleared p)\<lparr>inHand := True\<rparr> else cleared p)
             \<longrightarrow> seatIndex (if pid p \<in> pid ` set ps then (cleared p)\<lparr>inHand := True\<rparr> else cleared p) \<noteq> None)"
  proof (cases "pid p \<in> pid ` set ps")
    case True
    then obtain q where q: "q \<in> set ps" "pid q = pid p" by auto
    from eligible_seated[OF q(1)[unfolded ps]]
    have g: "getPlayer s (pid q) = Some q" and se: "seatIndex q \<noteq> None" by simp_all
    have "p = q" by (rule getPlayer_unique[OF d g p q(2)[symmetric]])
    with se True show ?thesis by (simp add: cleared_def)
  next
    case False
    then show ?thesis by (simp add: cleared_def)
  qed
qed

lemma inv_startBettingRound: "tableInv s \<Longrightarrow> tableInv (startBettingRound s r)"
  using kept_wf[OF framed_kept[OF framed_cluster(1)], of s r] bossInv_cluster(1)[of s r]
  by (simp add: tableInv_def)

lemma inv_beginHand:
  assumes wf: "wfTable s" and ps: "ps = getEligibleSeatedPlayers s" and two: "2 \<le> length ps"
  shows "tableInv (beginHand s ps rnd)"
proof -
  define s2 where "s2 = resetPlayersForHand (s\<lparr>handNumber := handNumber s + 1\<rparr>) ps"
  define s4 where "s4 = s2\<lparr>deck := snd (drawLoop 5 (buildDeck rnd)),
                  bossCards := fst (drawLoop 5 (buildDeck rnd)), bossRevealedCount := 3,
                  bossVisible := False, phase := Rush, pot := 0, sidePot := 0, currentBet := 0,
                  minimumRaise := RAISE_INCREMENT\<rparr>"
  define s7 where "s7 = assignBlinds ((dealHands s4 ps)\<lparr>bossVisible := True\<rparr>) ps"
  have e: "beginHand s ps rnd = startBettingRound s7 (smallBlindSeat s7)"
    unfolding beginHand_def Let_def s7_def s4_def s2_def by simp
  have w2: "wfTable s2" unfolding s2_def by (rule wf_resetPlayersForHand[OF wf ps])
  have "players s4 = players s2" by (simp add: s4_def)
  from wf_cong[OF this] w2 have w4: "wfTable s4" by simp
  have v4: "bossView s4 = (Rush, 3, 47)"
    by (simp add: s4_def bossView_def length_drawLoop length_buildDeck)
  let ?s5 = "dealHands s4 ps"
  have w5: "wfTable ?s5" by (rule kept_wf[OF dealHands_fields(1) w4])
  have v5: "bossView ?s5 = (Rush, 3, 47 - 7 * length ps)"
    using v4 by (simp add: bossView_def dealHands_fields)
  let ?s6 = "?s5\<lparr>bossVisible := True\<rparr>"
  have "players ?s6 = players ?s5" by simp
  from wf_cong[OF this] w5 have w6: "wfTable ?s6" by simp
  have v6: "bossView ?s6 = (Rush, 3, 47 - 7 * length ps)"
    using v5 by (simp add: bossView_def)
  have k7: "kept ?s6 s7" and v7: "bossView s7 = bossView ?s6"
    unfolding s7_def using assignBlinds_keep[of ?s6 ps] by simp_all
  have w7: "wfTable s7" by (rule kept_wf[OF k7 w6])
  have "bossInv s7" using v7 v6 two by (simp add: bossInv_def bossView_def)
  with w7 have "tableInv s7" by (simp add: tableInv_def)
  then show ?thesis unfolding e by (rule inv_startBettingRound)
qed

lemma inv_startHand: "tableInv s \<Longrightarrow> tableInv (startHand s i rnd)"
proof -
  assume inv: "tableInv s"
  then have wf: "wfTable s" by (simp add: tableInv_def)
  have "startHand s i rnd = broadcast (beginHand s (getEligibleSeatedPlayers s) rnd)
          \<and> 2 \<le> length (getEligibleSeatedPlayers s)
        \<or> (\<exists>e. startHand s i rnd = emit s e)"
    unfolding startHand_def Let_def by (auto intro: exI)
  then show ?thesis
  proof
    assume a: "startHand s i rnd = broadcast (beginHand s (getEligibleSeatedPlayers s) rnd)
          \<and> 2 \<le> length (getEligibleSeatedPlayers s)"
    then have "tableInv (beginHand s (getEligibleSeatedPlayers s) rnd)"
      using inv_beginHand[OF wf refl] by simp
    then show ?thesis using a inv_broadcast by simp
  next
    assume "\<exists>e. startHand s i rnd = emit s e"
    then show ?thesis using inv_emit[OF inv] by auto
  qed
qed

lemma reachable_inv: "reachable s \<Longrightarrow> tableInv s"
proof (induction rule: reachable.induct)
  case r_init
  show ?case by (rule inv_init)
next
  case (r_join s playerId name)
  then show ?case by (simp add: inv_join)
next
  case (r_seatTake s seat playerId)
  then show ?case by (simp add: inv_seatTake)
next
  case (r_seatLeave s playerId)
  then show ?case by (simp add: inv_seatLeave)
next
  case (r_startHand s rnd playerId)
  then show ?case by (simp add: inv_startHand)
next
  case (r_betAction s playerId msg)
  then show ?case by (simp add: inv_betAction)
next
  case (r_comboUpdate s playerId selections)
  then show ?case by (simp add: inv_comboUpdate)
next
  case (r_comboSubmit s playerId selections)
  then show ?case by (simp add: inv_comboSubmit)
next
  case (r_restartTable s)
  then have "wfTable s" by (simp add: tableInv_def)
  then show ?case by (rule inv_restartTable)
qed

subsection \<open>The revealed prefix of the boss hand\<close>

text \<open>
  Claim C5, as the code has it. In every reachable state the revealed count is 0 while
  the table is waiting, 3 in the rush, 4 in the charge, 5 in the stomp, at least 5 in the
  combo phase and at least 6 in the oxtail phase. Every sudden-death round takes one card
  off the deck and adds one to the revealed count (\<open>oxtailDraw\<close>, the body of
  \<open>startOxtail\<close>), and no test stops this at 6: the count is bounded by the cards the
  deal has left in the deck, revealed count and deck together being at most 38 in the
  combo and oxtail phases, so the revealed count never exceeds 38.
\<close>

theorem revealed_count_bounds:
  assumes "reachable s"
  shows "bossRevealedCount s \<le> 38
       \<and> (phase s = Waiting \<longrightarrow> bossRevealedCount s = 0)
       \<and> (phase s = Rush \<longrightarrow> bossRevealedCount s = 3)
       \<and> (phase s = Charge \<longrightarrow> bossRevealedCount s = 4)
       \<and> (phase s = Stomp \<longrightarrow> bossRevealedCount s = 5)
       \<and> (phase s = Combo \<longrightarrow> 5 \<le> bossRevealedCount s
             \<and> bossRevealedCount s + length (deck s) \<le> 38)
       \<and> (phase s = Oxtail \<longrightarrow> 6 \<le> bossRevealedCount s
             \<and> bossRevealedCount s + length (deck s) \<le> 38)
       \<and> (deck s \<noteq> [] \<longrightarrow>
             startOxtail s = startBettingRound (oxtailDraw s) (smallBlindSeat s)
             \<and> phase (oxtailDraw s) = Oxtail
             \<and> bossRevealedCount (oxtailDraw s) = bossRevealedCount s + 1
             \<and> length (deck (oxtailDraw s)) + 1 = length (deck s)
             \<and> length (bossCards (oxtailDraw s)) = length (bossCards s) + 1)"
proof -
  from reachable_inv[OF assms] have b: "bossInv s" by (simp add: tableInv_def)
  have ph: "bossRevealedCount s \<le> 38
       \<and> (phase s = Waiting \<longrightarrow> bossRevealedCount s = 0)
       \<and> (phase s = Rush \<longrightarrow> bossRevealedCount s = 3)
       \<and> (phase s = Charge \<longrightarrow> bossRevealedCount s = 4)
       \<and> (phase s = Stomp \<longrightarrow> bossRevealedCount s = 5)
       \<and> (phase s = Combo \<longrightarrow> 5 \<le> bossRevealedCount s
             \<and> bossRevealedCount s + length (deck s) \<le> 38)
       \<and> (phase s = Oxtail \<longrightarrow> 6 \<le> bossRevealedCount s
             \<and> bossRevealedCount s + length (deck s) \<le> 38)"
    using b by (cases "phase s") (simp_all add: bossInv_def)
  have ox: "startOxtail s = startBettingRound (oxtailDraw s) (smallBlindSeat s)
             \<and> phase (oxtailDraw s) = Oxtail
             \<and> bossRevealedCount (oxtailDraw s) = bossRevealedCount s + 1
             \<and> length (deck (oxtailDraw s)) + 1 = length (deck s)
             \<and> length (bossCards (oxtailDraw s)) = length (bossCards s) + 1"
    if ne: "deck s \<noteq> []"
  proof -
    have "oxtailDraw s = oxtailTable s" by (rule oxtailDraw_eq[OF ne])
    then show ?thesis
      using ne by (simp add: startOxtail.simps[of s]) (simp add: oxtailTable_def)
  qed
  show ?thesis using ph ox by blast
qed

text \<open>
  With both players all-in every tie is followed at once by the next combo phase. After
  Bob's empty selection has tied with Ann's a sixth boss card is revealed; Ann and Bob
  submit the empty selection once more, and a seventh is.
\<close>

definition sevenRevealed :: GameEngine where
  "sevenRevealed = comboSubmit (comboSubmit (comboSubmit allInLast ''b'' []) ''a'' []) ''b'' []"

lemma sevenRevealed_reachable: "reachable sevenRevealed"
  unfolding sevenRevealed_def by (intro reachable.intros allInLast_reachable)

lemma sevenRevealed_view: "bossView sevenRevealed = (Combo, 7, 31)"
  by code_simp

theorem seven_revealed_counterexample:
  "reachable sevenRevealed \<and> phase sevenRevealed = Combo \<and> bossRevealedCount sevenRevealed = 7"
  using sevenRevealed_reachable sevenRevealed_view by (simp add: bossView_def)

theorem revealed_count_bounds_witness:
  "reachable sevenRevealed \<and> phase sevenRevealed = Combo \<and> deck sevenRevealed \<noteq> []
   \<and> 5 \<le> bossRevealedCount sevenRevealed
   \<and> bossRevealedCount sevenRevealed + length (deck sevenRevealed) \<le> 38
   \<and> bossRevealedCount (oxtailDraw sevenRevealed) = 8"
proof -
  have v: "phase sevenRevealed = Combo" "bossRevealedCount sevenRevealed = 7"
    "length (deck sevenRevealed) = 31"
    using sevenRevealed_view by (simp_all add: bossView_def)
  then have ne: "deck sevenRevealed \<noteq> []" by auto
  from revealed_count_bounds[OF sevenRevealed_reachable] v ne
  show ?thesis using sevenRevealed_reachable by simp
qed

subsection \<open>Joining or sitting down during a hand\<close>

text \<open>
  \<open>aside i s s'\<close>: from \<open>s\<close> to \<open>s'\<close> the ids and the hand number stay, and
  the player \<open>i\<close> keeps the entry hand and the cards and is not put into the hand.
\<close>

definition pstill :: "EnginePlayer \<Rightarrow> EnginePlayer \<Rightarrow> bool" where
  "pstill p p' = (entryHand p' = entryHand p \<and> hand p' = hand p \<and> (inHand p' \<longrightarrow> inHand p))"

definition aside :: "string \<Rightarrow> GameEngine \<Rightarrow> GameEngine \<Rightarrow> bool" where
  "aside i s s' =
     (list_all2 (\<lambda>p p'. pid p' = pid p \<and> (pid p = i \<longrightarrow> pstill p p')) (players s) (players s')
      \<and> handNumber s' = handNumber s)"

lemma aside_refl [simp]: "aside i s s"
  by (simp add: aside_def pstill_def list_all2_refl)

lemma aside_trans: "aside i s t \<Longrightarrow> aside i t u \<Longrightarrow> aside i s u"
proof -
  assume a: "aside i s t" and b: "aside i t u"
  let ?R = "\<lambda>p p'. pid p' = pid p \<and> (pid p = i \<longrightarrow> pstill p p')"
  have "list_all2 ?R (players s) (players u)"
    by (rule list_all2_trans[of ?R ?R ?R]) (use a b in \<open>auto simp: aside_def pstill_def\<close>)
  then show ?thesis using a b by (simp add: aside_def)
qed

lemma aside_map:
  "(\<And>p. pid (f p) = pid p \<and> (pid p = i \<longrightarrow> pstill p (f p)))
   \<Longrightarrow> players s' = map f (players s) \<Longrightarrow> handNumber s' = handNumber s \<Longrightarrow> aside i s s'"
  by (simp add: aside_def list_all2_map2 list_all2_refl)

lemma aside_same: "players s' = players s \<Longrightarrow> handNumber s' = handNumber s \<Longrightarrow> aside i s s'"
  by (simp add: aside_def pstill_def list_all2_refl)

lemma aside_updatePlayer:
  "(\<And>p. pid (f p) = pid p) \<Longrightarrow> (\<And>p. j = i \<Longrightarrow> pstill p (f p)) \<Longrightarrow> aside i s (updatePlayer s j f)"
  by (rule aside_map[where f = "\<lambda>p. if pid p = j then f p else p"])
     (auto simp: updatePlayer_def pstill_def)

lemma framed_aside: "framed s s' \<Longrightarrow> aside i s s'"
  unfolding framed_def aside_def
  by (auto elim!: list_all2_mono simp: pstep_def pstill_def)

lemma find_aside:
  "list_all2 (\<lambda>p p'. pid p' = pid p \<and> (pid p = i \<longrightarrow> pstill p p')) ps qs
   \<Longrightarrow> find (\<lambda>p. pid p = i) ps = Some p
   \<Longrightarrow> \<exists>q. find (\<lambda>p. pid p = i) qs = Some q \<and> pstill p q"
proof (induction ps qs rule: list_all2_induct)
  case Nil
  then show ?case by simp
next
  case (Cons x xs y ys)
  then show ?case by (auto split: if_splits)
qed

lemma aside_getPlayer:
  "aside i s s' \<Longrightarrow> getPlayer s i = Some p \<Longrightarrow> \<exists>q. getPlayer s' i = Some q \<and> pstill p q"
  unfolding aside_def getPlayer_def using find_aside by blast

lemma handNumber_updateSidePotValues [simp]: "handNumber (updateSidePotValues s) = handNumber s"
  by (simp add: updateSidePotValues_def Let_def)

lemma aside_commitAmount: "aside i s (commitAmount s j n)"
  by (rule aside_map[where f = "\<lambda>p. if pid p = j then committed p n else p"])
     (simp_all add: commitAmount_def Let_def updatePlayer_def committed_def pstill_def)

lemma aside_postBlind: "aside i s (postBlind s j b small)"
proof -
  let ?s1 = "updatePlayer s j (\<lambda>p. if small then p\<lparr>isSmallBlind := True\<rparr> else p\<lparr>isBigBlind := True\<rparr>)"
  let ?s2 = "commitAmount ?s1 j b"
  let ?s3 = "updatePlayer ?s2 j (\<lambda>p. p\<lparr>betThisRound := b\<rparr>)"
  have a: "aside i s ?s1" by (rule aside_updatePlayer) (simp_all add: pstill_def)
  have b: "aside i ?s1 ?s2" by (rule aside_commitAmount)
  have c: "aside i ?s2 ?s3" by (rule aside_updatePlayer) (simp_all add: pstill_def)
  have "aside i s ?s3" by (rule aside_trans[OF a aside_trans[OF b c]])
  then show ?thesis by (simp add: postBlind_def Let_def aside_def)
qed

lemma aside_dealer_fold:
  "aside i s (foldl (\<lambda>st player. updatePlayer st (pid player)
                        (\<lambda>p. p\<lparr>isDealer := (seatIndex p = dealerSeat st)\<rparr>)) s ps)"
proof (induction ps arbitrary: s)
  case Nil
  show ?case by simp
next
  case (Cons x xs)
  let ?s1 = "updatePlayer s (pid x) (\<lambda>p. p\<lparr>isDealer := (seatIndex p = dealerSeat s)\<rparr>)"
  have "aside i s ?s1" by (rule aside_updatePlayer) (simp_all add: pstill_def)
  from aside_trans[OF this Cons.IH[of ?s1]] show ?case by simp
qed

lemma aside_assignBlinds: "aside i s (assignBlinds s ps)"
proof -
  define s1 where "s1 = (if dealerSeat s = None
                then (case ps of
                        [] \<Rightarrow> s
                      | first # _ \<Rightarrow>
                          updatePlayer (s\<lparr>dealerSeat := seatIndex first\<rparr>) (pid first)
                            (\<lambda>p. p\<lparr>isDealer := True\<rparr>))
                else s)"
  define s2 where "s2 = foldl (\<lambda>st player. updatePlayer st (pid player)
                        (\<lambda>p. p\<lparr>isDealer := (seatIndex p = dealerSeat st)\<rparr>)) s1 ps"
  define sb where "sb = (if length ps = 2 then dealerSeat s2 else getNextOccupiedSeat s2 (dealerSeat s2))"
  define s3 where "s3 = s2\<lparr>smallBlindSeat := sb\<rparr>"
  define s4 where "s4 = (case getPlayerBySeat s3 sb of None \<Rightarrow> s3
                          | Some p \<Rightarrow> postBlind s3 (pid p) SMALL_BLIND True)"
  have e: "assignBlinds s ps = (case getPlayerBySeat s3 (getNextOccupiedSeat s2 sb) of
              None \<Rightarrow> s4 | Some bb \<Rightarrow> postBlind s4 (pid bb) BIG_BLIND False)"
    unfolding assignBlinds_def Let_def s4_def s3_def sb_def s2_def s1_def by (rule refl)
  have k1: "aside i s s1"
  proof -
    have "aside i (s\<lparr>dealerSeat := d\<rparr>) (updatePlayer (s\<lparr>dealerSeat := d\<rparr>) j (\<lambda>p. p\<lparr>isDealer := True\<rparr>))" for d j
      by (rule aside_updatePlayer) (simp_all add: pstill_def)
    then have "aside i s (updatePlayer (s\<lparr>dealerSeat := d\<rparr>) j (\<lambda>p. p\<lparr>isDealer := True\<rparr>))" for d j
      by (simp add: aside_def)
    then show ?thesis by (simp add: s1_def split: list.splits)
  qed
  have k2: "aside i s1 s2" unfolding s2_def by (rule aside_dealer_fold)
  have k3: "aside i s2 s3" by (rule aside_same) (simp_all add: s3_def)
  have k4: "aside i s3 s4" using aside_postBlind by (simp add: s4_def split: option.splits)
  have k5: "aside i s4 (assignBlinds s ps)"
    unfolding e using aside_postBlind by (simp split: option.splits)
  show ?thesis
    by (rule aside_trans[OF k1 aside_trans[OF k2 aside_trans[OF k3 aside_trans[OF k4 k5]]]])
qed

lemma aside_dealHands: "i \<notin> pid ` set ps \<Longrightarrow> aside i s (dealHands s ps)"
proof -
  have "i \<notin> pid ` set ps \<Longrightarrow> aside i s (foldl dealOne s ps)"
  proof (induction ps arbitrary: s)
    case Nil
    show ?case by simp
  next
    case (Cons x xs)
    then have ne: "pid x \<noteq> i" and r: "i \<notin> pid ` set xs" by auto
    have "aside i (s\<lparr>deck := d\<rparr>) (updatePlayer (s\<lparr>deck := d\<rparr>) (pid x) (\<lambda>q. q\<lparr>hand := h\<rparr>))" for d h
      by (rule aside_updatePlayer) (use ne in simp_all)
    then have "aside i s (dealOne s x)" by (simp add: dealOne_def Let_def aside_def)
    from aside_trans[OF this Cons.IH[OF r, of "dealOne s x"]] show ?case by simp
  qed
  then show "i \<notin> pid ` set ps \<Longrightarrow> aside i s (dealHands s ps)" by (simp add: dealHands_def)
qed

lemma find_map_pid:
  "find (\<lambda>q. pid q = i) ps = Some p \<Longrightarrow> (\<And>q. pid (f q) = pid q)
   \<Longrightarrow> find (\<lambda>q. pid q = i) (map f ps) = Some (f p)"
  by (induction ps) (auto split: if_splits)

lemma getPlayer_resetPlayersForHand:
  assumes "getPlayer s i = Some p" and "i \<notin> pid ` set ps"
  shows "getPlayer (resetPlayersForHand s ps) i = Some (cleared p)"
proof -
  let ?f = "\<lambda>p. if pid p \<in> pid ` set ps then (cleared p)\<lparr>inHand := True\<rparr> else cleared p"
  have "find (\<lambda>q. pid q = i) (map ?f (players s)) = Some (?f p)"
    by (rule find_map_pid) (use assms(1) in \<open>simp_all add: getPlayer_def cleared_def\<close>)
  moreover have "pid p = i" using getPlayer_pid[OF assms(1)] by simp
  ultimately show ?thesis
    using assms(2) by (simp add: getPlayer_def players_resetPlayersForHand)
qed

lemma handNumber_resetPlayersForHand: "handNumber (resetPlayersForHand s ps) = handNumber s"
proof -
  have "handNumber (foldl (\<lambda>st player. updatePlayer st (pid player) f) t ps) = handNumber t" for t f
    by (induction ps arbitrary: t) (simp_all add: updatePlayer_def)
  then show ?thesis by (simp add: resetPlayersForHand_def Let_def forAllPlayers_def)
qed

lemma beginHand_left_out:
  assumes g: "getPlayer s i = Some p" and out: "i \<notin> pid ` set ps"
  shows "handNumber (beginHand s ps rnd) = handNumber s + 1
         \<and> (\<exists>q. getPlayer (beginHand s ps rnd) i = Some q \<and> entryHand q = entryHand p
                \<and> \<not> inHand q \<and> hand q = [])"
proof -
  define s2 where "s2 = resetPlayersForHand (s\<lparr>handNumber := handNumber s + 1\<rparr>) ps"
  define s4 where "s4 = s2\<lparr>deck := snd (drawLoop 5 (buildDeck rnd)),
                  bossCards := fst (drawLoop 5 (buildDeck rnd)), bossRevealedCount := 3,
                  bossVisible := False, phase := Rush, pot := 0, sidePot := 0, currentBet := 0,
                  minimumRaise := RAISE_INCREMENT\<rparr>"
  define s7 where "s7 = assignBlinds ((dealHands s4 ps)\<lparr>bossVisible := True\<rparr>) ps"
  have e: "beginHand s ps rnd = startBettingRound s7 (smallBlindSeat s7)"
    unfolding beginHand_def Let_def s7_def s4_def s2_def by simp
  have "getPlayer (s\<lparr>handNumber := handNumber s + 1\<rparr>) i = Some p"
    using g by (simp add: getPlayer_def)
  from getPlayer_resetPlayersForHand[OF this out]
  have g2: "getPlayer s2 i = Some (cleared p)" by (simp add: s2_def)
  have h2: "handNumber s2 = handNumber s + 1"
    by (simp add: s2_def handNumber_resetPlayersForHand)
  have a4: "aside i s2 s4" by (rule aside_same) (simp_all add: s4_def)
  have a5: "aside i s4 (dealHands s4 ps)" by (rule aside_dealHands[OF out])
  have a6: "aside i (dealHands s4 ps) ((dealHands s4 ps)\<lparr>bossVisible := True\<rparr>)"
    by (rule aside_same) simp_all
  have a7: "aside i ((dealHands s4 ps)\<lparr>bossVisible := True\<rparr>) s7"
    unfolding s7_def by (rule aside_assignBlinds)
  have a8: "aside i s7 (beginHand s ps rnd)"
    unfolding e by (rule framed_aside[OF framed_cluster(1)])
  have a: "aside i s2 (beginHand s ps rnd)"
    by (rule aside_trans[OF a4 aside_trans[OF a5 aside_trans[OF a6 aside_trans[OF a7 a8]]]])
  from aside_getPlayer[OF a g2] obtain q where
    q: "getPlayer (beginHand s ps rnd) i = Some q" "pstill (cleared p) q" by blast
  then have "entryHand q = entryHand p \<and> \<not> inHand q \<and> hand q = []"
    by (simp add: pstill_def cleared_def)
  moreover have "handNumber (beginHand s ps rnd) = handNumber s + 1"
    using a h2 by (simp add: aside_def)
  ultimately show ?thesis using q(1) by blast
qed

lemma not_yet_eligible:
  assumes "getPlayer s i = Some p" and "handNumber s < entryHand p"
  shows "i \<notin> pid ` set (getEligibleSeatedPlayers s)"
proof
  assume "i \<in> pid ` set (getEligibleSeatedPlayers s)"
  then obtain q where q: "q \<in> set (getEligibleSeatedPlayers s)" "pid q = i" by auto
  from eligible_seated[OF q(1)] q(2) assms(1) have "q = p" "entryHand q \<le> handNumber s"
    by simp_all
  with assms(2) show False by simp
qed

lemma eligible_when_arrived:
  assumes g: "getPlayer s i = Some p" and k: "seatIndex p = Some k" and sl: "seatSlot s k = Some i"
    and e: "entryHand p \<le> handNumber s"
  shows "p \<in> set (getEligibleSeatedPlayers s)"
proof -
  from sl have "k - 1 < length (seats s)" "seats s ! (k - 1) = Some i"
    by (auto simp: seatSlot_def split: if_splits)
  then have "Some i \<in> set (seats s)" by (metis nth_mem)
  moreover have "eligibleAt s (Some i) = Some p" using g k e by (simp add: eligibleAt_def)
  ultimately show ?thesis
    by (force simp: getEligibleSeatedPlayers_def map_filter_def)
qed

lemma find_snoc:
  "find P xs = None \<Longrightarrow> P y \<Longrightarrow> find P (xs @ [y]) = Some y"
  by (induction xs) (auto split: if_splits)

lemma join_new:
  assumes "getPlayer s i = None"
  shows "getPlayer (join s i name) i = Some (newPlayer s i name)"
proof -
  have "find (\<lambda>p. pid p = i) (players s @ [newPlayer s i name]) = Some (newPlayer s i name)"
    by (rule find_snoc) (use assms in \<open>simp_all add: getPlayer_def newPlayer_def\<close>)
  then show ?thesis
    using assms by (simp add: join_def Let_def broadcast_eq updatePrivate_def getPlayer_def emit_def)
qed

lemma seatTake_accepted:
  assumes g: "getPlayer s i = Some p" and free: "seatSlot s seat = None \<or> seatSlot s seat = Some i"
  shows "\<exists>q. getPlayer (seatTake s i seat) i = Some q \<and> seatIndex q = Some seat
            \<and> entryHand q = handNumber s + (if isHandActive s then 1 else 0)"
proof -
  define s2 where "s2 = (case seatIndex p of None \<Rightarrow> s
                         | Some old \<Rightarrow> s\<lparr>seats := (seats s)[old - 1 := None]\<rparr>)
                       \<lparr>seats := (seats (case seatIndex p of None \<Rightarrow> s
                         | Some old \<Rightarrow> s\<lparr>seats := (seats s)[old - 1 := None]\<rparr>))[seat - 1 := Some i]\<rparr>"
  define f where "f = (\<lambda>q::EnginePlayer. q\<lparr>seatIndex := Some seat,
                               entryHand := handNumber s2 + (if isHandActive s2 then 1 else 0)\<rparr>)"
  define s3 where "s3 = updatePlayer s2 i f"
  define s4 where "s4 = (if dealerSeat s3 = None
                      then updatePlayer (s3\<lparr>dealerSeat := Some seat\<rparr>) i (\<lambda>p. p\<lparr>isDealer := True\<rparr>)
                      else s3)"
  have e: "seatTake s i seat = broadcast s4"
    using g free unfolding seatTake_def s4_def s3_def f_def s2_def Let_def
    by (auto simp: Let_def)
  have pi: "pid p = i" using getPlayer_pid[OF g] by simp
  have g2: "getPlayer s2 i = Some p"
    using g by (simp add: s2_def getPlayer_def split: option.splits)
  have hs: "handNumber s2 = handNumber s" "isHandActive s2 = isHandActive s"
    by (simp_all add: s2_def isHandActive_def split: option.splits)
  have g3: "getPlayer s3 i = Some (f p)"
    unfolding s3_def by (rule getPlayer_updatePlayer_same[OF g2]) (simp add: f_def pi)
  have "\<exists>q. getPlayer s4 i = Some q \<and> seatIndex q = seatIndex (f p) \<and> entryHand q = entryHand (f p)"
  proof (cases "dealerSeat s3 = None")
    case True
    have "getPlayer (s3\<lparr>dealerSeat := Some seat\<rparr>) i = Some (f p)"
      using g3 by (simp add: getPlayer_def)
    from getPlayer_updatePlayer_same[OF this, of "\<lambda>p. p\<lparr>isDealer := True\<rparr>"]
    show ?thesis using True by (simp add: s4_def f_def pi)
  next
    case False
    have "s4 = s3" using False by (simp only: s4_def if_False)
    then show ?thesis using g3 by simp
  qed
  then show ?thesis
    by (simp add: e broadcast_eq getPlayer_def f_def hs)
qed

text \<open>
  Claim C4, as the code has it. A player who joins, or who takes a free seat, while hand
  \<open>N\<close> is in progress gets the entry hand \<open>N + 1\<close>. \<open>startHand\<close> compares the entry
  hand with the hand number before \<open>beginHand\<close> increments it: on a table \<open>t\<close> whose
  hand number is still \<open>N\<close>, a player with entry hand \<open>N + 1\<close> is not among the eligible
  seated players. When the dealer starts the next hand there, the player does not count
  toward the two that are required, and in the hand that begins, which is hand \<open>N + 1\<close>,
  the player is not in the hand and holds no cards. A seated player whose entry hand is
  at most the hand number is eligible: the player of the claim is from hand \<open>N + 2\<close> on.
\<close>

theorem mid_hand_entry:
  "(isHandActive s \<and> getPlayer s i = None \<longrightarrow>
      (\<exists>p. getPlayer (join s i name) i = Some p \<and> entryHand p = handNumber s + 1))
   \<and> (isHandActive s \<and> getPlayer s i \<noteq> None
        \<and> (seatSlot s seat = None \<or> seatSlot s seat = Some i) \<longrightarrow>
      (\<exists>p. getPlayer (seatTake s i seat) i = Some p \<and> seatIndex p = Some seat
           \<and> entryHand p = handNumber s + 1))
   \<and> (getPlayer t i = Some p \<and> entryHand p = handNumber t + 1 \<longrightarrow>
        i \<notin> pid ` set (getEligibleSeatedPlayers t)
        \<and> (getPlayer t d = Some dealer \<and> isDealer dealer \<and> \<not> isHandActive t \<longrightarrow>
             (length (getEligibleSeatedPlayers t) < 2 \<longrightarrow>
                startHand t d rnd = emit t (EvError (Some d) ''Need at least two players''))
             \<and> (2 \<le> length (getEligibleSeatedPlayers t) \<longrightarrow>
                  handNumber (startHand t d rnd) = handNumber t + 1
                  \<and> (\<exists>q. getPlayer (startHand t d rnd) i = Some q
                         \<and> entryHand q = handNumber t + 1 \<and> \<not> inHand q \<and> hand q = []))))
   \<and> (getPlayer u i = Some r \<and> seatIndex r = Some k \<and> seatSlot u k = Some i
        \<and> entryHand r \<le> handNumber u \<longrightarrow>
        r \<in> set (getEligibleSeatedPlayers u))"
proof -
  have a: "\<exists>p. getPlayer (join s i name) i = Some p \<and> entryHand p = handNumber s + 1"
    if "isHandActive s" "getPlayer s i = None"
    using join_new[OF that(2), of name] that(1) by (simp add: newPlayer_def)
  have b: "\<exists>p. getPlayer (seatTake s i seat) i = Some p \<and> seatIndex p = Some seat
              \<and> entryHand p = handNumber s + 1"
    if "isHandActive s" "getPlayer s i \<noteq> None" "seatSlot s seat = None \<or> seatSlot s seat = Some i"
  proof -
    from that(2) obtain p0 where "getPlayer s i = Some p0" by auto
    from seatTake_accepted[OF this that(3)] that(1) show ?thesis by simp
  qed
  have c1: "i \<notin> pid ` set (getEligibleSeatedPlayers t)"
    if "getPlayer t i = Some p" "entryHand p = handNumber t + 1"
    by (rule not_yet_eligible[OF that(1)]) (simp add: that(2))
  have c2: "startHand t d rnd = emit t (EvError (Some d) ''Need at least two players'')"
    if "getPlayer t d = Some dealer" "isDealer dealer" "\<not> isHandActive t"
      "length (getEligibleSeatedPlayers t) < 2"
    using that by (simp add: startHand_def)
  have c3: "handNumber (startHand t d rnd) = handNumber t + 1
            \<and> (\<exists>q. getPlayer (startHand t d rnd) i = Some q
                   \<and> entryHand q = handNumber t + 1 \<and> \<not> inHand q \<and> hand q = [])"
    if g: "getPlayer t i = Some p" and e: "entryHand p = handNumber t + 1"
      and dl: "getPlayer t d = Some dealer" "isDealer dealer" "\<not> isHandActive t"
      and two: "2 \<le> length (getEligibleSeatedPlayers t)"
  proof -
    have st: "startHand t d rnd = broadcast (beginHand t (getEligibleSeatedPlayers t) rnd)"
      using dl two by (simp add: startHand_def Let_def)
    from beginHand_left_out[OF g c1[OF g e], of rnd] e
    show ?thesis by (simp add: st broadcast_eq getPlayer_def)
  qed
  have d: "r \<in> set (getEligibleSeatedPlayers u)"
    if "getPlayer u i = Some r" "seatIndex r = Some k" "seatSlot u k = Some i"
      "entryHand r \<le> handNumber u"
    by (rule eligible_when_arrived[OF that])
  show ?thesis using a b c1 c2 c3 d by blast
qed

end
